theory Spec2Isabelle
  imports Main "HOL-Library.Char_ord" "HOL-Library.List_Lexorder"
begin

section \<open>Decimal formatting\<close>

text \<open>
  The digits of a natural number, as Go's \<^verbatim>\<open>appendInt\<close> and \<^verbatim>\<open>strconv\<close> print them.
\<close>

definition digit :: "nat \<Rightarrow> char" where
  "digit k = char_of (48 + k)"

fun decimal :: "nat \<Rightarrow> string" where
  "decimal n = (if n < 10 then [digit n] else decimal (n div 10) @ [digit (n mod 10)])"

declare decimal.simps [simp del]

text \<open>The last \<open>w\<close> decimal digits of a number.\<close>

fun fixed :: "nat \<Rightarrow> nat \<Rightarrow> string" where
  "fixed 0 x = []"
| "fixed (Suc w) x = fixed w (x div 10) @ [digit (x mod 10)]"

text \<open>
  \<^verbatim>\<open>appendInt(b, x, width)\<close> of package time, for \<open>x \<ge> 0\<close>: the decimal digits of
  \<open>x\<close>, padded on the left with zeros up to \<open>width\<close>; a longer number is printed whole.
\<close>

definition appendInt :: "nat \<Rightarrow> nat \<Rightarrow> string" where
  "appendInt x width = replicate (width - length (decimal x)) (CHR ''0'') @ decimal x"

section \<open>Clock readings and the partition file name (collector.go)\<close>

text \<open>
  A \<^verbatim>\<open>time.Time\<close> at second resolution, as \<^verbatim>\<open>Format\<close> reads it: the calendar date
  and the clock of the value in its location. \<^verbatim>\<open>time.Now()\<close> reads the clock in the
  location of the process; the values of api.go are in UTC.
\<close>

record Time =
  Year :: nat
  Month :: nat
  Day :: nat
  Hour :: nat
  Minute :: nat
  Second :: nat

text \<open>\<^verbatim>\<open>t.Format("2006-01-02")\<close>\<close>

definition Format_date :: "Time \<Rightarrow> string" where
  "Format_date t = appendInt (Year t) 4 @ ''-'' @ appendInt (Month t) 2 @ ''-'' @ appendInt (Day t) 2"

text \<open>\<^verbatim>\<open>t.Format("2006-01-02_15-04-05")\<close>\<close>

definition Format_stamp :: "Time \<Rightarrow> string" where
  "Format_stamp t = Format_date t @ ''_'' @ appendInt (Hour t) 2 @ ''-'' @ appendInt (Minute t) 2
     @ ''-'' @ appendInt (Second t) 2"

text \<open>
  \<^verbatim>\<open>getNewFilePath\<close>, with the value of \<^verbatim>\<open>time.Now()\<close> as its argument:
  \<^verbatim>\<open>fmt.Sprintf("ais_data/%s.parquet", time.Now().Format("2006-01-02_15-04-05"))\<close>.
\<close>

definition getNewFilePath :: "Time \<Rightarrow> string" where
  "getNewFilePath now = ''ais_data/'' @ Format_stamp now @ ''.parquet''"

section \<open>Decoded messages (collector.go)\<close>

text \<open>
  A finite \<^verbatim>\<open>float64\<close>: sign bit, and the magnitude \<open>mant * 2 ^ expo\<close>. The JSON
  decoder produces no other kind (a number out of range is a decoding error).
\<close>

datatype float64 = Float64 (signbit: bool) (mant: nat) (expo: int)

text \<open>
  What \<^verbatim>\<open>json.Unmarshal\<close> stores in an \<^verbatim>\<open>interface{}\<close>: nil, bool, float64, string,
  a slice, or a map with string keys. A map is given by an association list read with
  \<^const>\<open>map_of\<close>.
\<close>

datatype json =
    JNull
  | JBool bool
  | JNumber float64
  | JString string
  | JArray "json list"
  | JObject "(string \<times> json) list"

text \<open>
  The magnitude rounded to an integer, ties to even, as \<^verbatim>\<open>strconv\<close> rounds the exact
  value of the float at precision 0.
\<close>

definition round_half_even :: "nat \<Rightarrow> int \<Rightarrow> nat" where
  "round_half_even m e =
     (if 0 \<le> e then m * 2 ^ nat e
      else let d = 2 ^ nat (- e); q = m div d; r = m mod d
           in if 2 * r < d then q
              else if d < 2 * r then q + 1
              else if even q then q else q + 1)"

text \<open>\<^verbatim>\<open>fmt.Sprintf("%.0f", x)\<close> for a finite \<open>x\<close>.\<close>

definition Sprintf_0f :: "float64 \<Rightarrow> string" where
  "Sprintf_0f x = (if signbit x then ''-'' else []) @ decimal (round_half_even (mant x) (expo x))"

text \<open>
  \<^verbatim>\<open>extractMMSI\<close>: each step is a map lookup followed by a type assertion; a missing
  key or a value of another type gives the empty string.
\<close>

definition extractMMSI :: "(string \<times> json) list \<Rightarrow> string" where
  "extractMMSI data =
     (case map_of data ''Message'' of
        Some (JObject msg) \<Rightarrow>
          (case map_of msg ''PositionReport'' of
             Some (JObject pos) \<Rightarrow>
               (case map_of pos ''UserID'' of
                  Some (JNumber mmsi) \<Rightarrow> Sprintf_0f mmsi
                | _ \<Rightarrow> [])
           | _ \<Rightarrow> [])
      | _ \<Rightarrow> [])"

section \<open>The record buffer and the flush (collector.go)\<close>

definition MaxRecordsPerFile :: int where
  "MaxRecordsPerFile = 100000"

record AISRecord =
  Timestamp :: string
  MMSI :: string
  RawJSON :: string

text \<open>
  A file of the output directory: created by the file writer and not (yet) finalized, or
  finalized by \<^verbatim>\<open>WriteStop\<close> with the rows the Parquet writer holds.
\<close>

datatype disk_file = Unfinished | Finished "AISRecord list"

text \<open>
  The global variables of the collector, and the files on disk by path.
\<close>

record collector =
  aisRecords :: "AISRecord list"
  recordCount :: int
  lastLogPercent :: int
  disk :: "string \<rightharpoonup> disk_file"

definition init :: collector where
  "init = \<lparr>aisRecords = [], recordCount = 0, lastLogPercent = 0, disk = Map.empty\<rparr>"

text \<open>
  What one run of \<^verbatim>\<open>saveToParquet\<close> meets outside the program: the clock read by
  \<^verbatim>\<open>getNewFilePath\<close>, and whether each library call returns an error
  (\<^verbatim>\<open>local.NewLocalFileWriter\<close>, \<^verbatim>\<open>writer.NewParquetWriter\<close>, the \<open>i\<close>-th call
  of \<^verbatim>\<open>pw.Write\<close>, \<^verbatim>\<open>pw.WriteStop\<close>). What becomes of a record whose
  \<^verbatim>\<open>pw.Write\<close> returned an error is the library's affair, not the program's:
  \<open>kept_on_err i\<close> says whether the writer holds the \<open>i\<close>-th record all the same (the
  Parquet writer queues a record before anything in the call can fail).
\<close>

record flush_io =
  now :: Time
  create_err :: bool
  init_err :: bool
  write_err :: "nat \<Rightarrow> bool"
  kept_on_err :: "nat \<Rightarrow> bool"
  stop_err :: bool

text \<open>The branch by which \<^verbatim>\<open>saveToParquet\<close> returns; each logs its own message.\<close>

datatype flush_result = Skipped | CreateFailed | InitFailed | StopFailed | Written

text \<open>
  The loop \<^verbatim>\<open>for _, rec := range aisRecords\<close>: every record is handed to
  \<^verbatim>\<open>pw.Write\<close>, in order; an error of the call is logged and the loop goes on with
  the next record. The result is the rows the writer holds after the loop: every record
  whose call returned no error, and of the others those the library kept.
\<close>

fun write_loop ::
  "(nat \<Rightarrow> bool) \<Rightarrow> (nat \<Rightarrow> bool) \<Rightarrow> nat \<Rightarrow> AISRecord list \<Rightarrow> AISRecord list \<Rightarrow> AISRecord list" where
  "write_loop werr kept i [] rows = rows"
| "write_loop werr kept i (rec # recs) rows =
     (if werr i \<and> \<not> kept i then write_loop werr kept (Suc i) recs rows
      else write_loop werr kept (Suc i) recs (rows @ [rec]))"

text \<open>
  \<^verbatim>\<open>saveToParquet\<close>, the body under the mutex. The effects of the library on the disk:
  a file writer that is created leaves a file at the path, in place of whatever was
  there (\<^verbatim>\<open>os.Create\<close> truncates); \<^verbatim>\<open>WriteStop\<close>, when it succeeds, completes
  that file with the rows the writer holds.
  The code removes no file and resets the buffer only after \<^verbatim>\<open>WriteStop\<close> succeeded.
\<close>

definition saveToParquet :: "flush_io \<Rightarrow> collector \<Rightarrow> flush_result \<times> collector" where
  "saveToParquet io s =
     (if recordCount s = 0 then (Skipped, s)
      else let currentFile = getNewFilePath (now io) in
        if create_err io then (CreateFailed, s)
        else let s1 = s\<lparr>disk := (disk s)(currentFile \<mapsto> Unfinished)\<rparr> in
          if init_err io then (InitFailed, s1)
          else let rows = write_loop (write_err io) (kept_on_err io) 0 (aisRecords s) [] in
            if stop_err io then (StopFailed, s1)
            else (Written, s\<lparr>aisRecords := [], recordCount := 0,
                              disk := (disk s)(currentFile \<mapsto> Finished rows)\<rparr>))"

text \<open>Go's integer division truncates towards zero.\<close>

definition go_div :: "int \<Rightarrow> int \<Rightarrow> int" where
  "go_div a b = sgn a * sgn b * (\<bar>a\<bar> div \<bar>b\<bar>)"

text \<open>Lines 144 to 147 of \<^verbatim>\<open>handleAISMessage\<close>: the append under the mutex.\<close>

definition append_locked :: "AISRecord \<Rightarrow> collector \<Rightarrow> collector" where
  "append_locked rcd s = s\<lparr>aisRecords := aisRecords s @ [rcd], recordCount := recordCount s + 1\<rparr>"

text \<open>Lines 150 to 154: the progress marker.\<close>

definition log_progress :: "collector \<Rightarrow> collector" where
  "log_progress s =
     (let currentPercent = go_div (recordCount s * 100) MaxRecordsPerFile
      in if go_div currentPercent 10 \<noteq> go_div (lastLogPercent s) 10
         then s\<lparr>lastLogPercent := currentPercent\<rparr> else s)"

text \<open>Lines 157 to 159: the flush on capacity, in the context of the appending call.\<close>

definition capacity_flush :: "flush_io \<Rightarrow> collector \<Rightarrow> flush_result option \<times> collector" where
  "capacity_flush io s =
     (if recordCount s \<ge> MaxRecordsPerFile
      then (case saveToParquet io s of (r, s') \<Rightarrow> (Some r, s'))
      else (None, s))"

text \<open>
  \<^verbatim>\<open>handleAISMessage\<close>. \<open>unmarshal\<close> is \<^verbatim>\<open>json.Unmarshal\<close> into a
  \<^verbatim>\<open>map[string]interface{}\<close> (\<open>None\<close> when it returns an error), \<open>ts\<close> is the value of
  \<^verbatim>\<open>time.Now().UTC().Format(time.RFC3339)\<close>, and \<open>io\<close> is what a flush started by
  this call would meet. The result says whether a flush was started and how it ended.
  A JSON \<^verbatim>\<open>null\<close> decodes without error to the nil map, which reads as the empty one.
\<close>

definition handleAISMessage ::
  "(string \<Rightarrow> (string \<times> json) list option) \<Rightarrow> flush_io \<Rightarrow> string \<Rightarrow> string \<Rightarrow> collector
     \<Rightarrow> flush_result option \<times> collector" where
  "handleAISMessage unmarshal io ts message s =
     (case unmarshal message of
        None \<Rightarrow> (None, s)
      | Some data \<Rightarrow>
          let mmsi = extractMMSI data in
          if mmsi = [] then (None, s)
          else let rcd = \<lparr>Timestamp = ts, MMSI = mmsi, RawJSON = message\<rparr>
               in capacity_flush io (log_progress (append_locked rcd s)))"

subsection \<open>Runs of the collector\<close>

text \<open>
  What happens to the collector: a message read from the socket (with the clock reading
  for its record and the surroundings of a possible flush), or a tick of the flush timer
  of \<^verbatim>\<open>runCollector\<close>.
\<close>

datatype event = Message flush_io string string | Tick flush_io

fun step :: "(string \<Rightarrow> (string \<times> json) list option) \<Rightarrow> event \<Rightarrow> collector \<Rightarrow> collector" where
  "step unmarshal (Message io ts message) s = snd (handleAISMessage unmarshal io ts message s)"
| "step unmarshal (Tick io) s = snd (saveToParquet io s)"

fun run :: "(string \<Rightarrow> (string \<times> json) list option) \<Rightarrow> event list \<Rightarrow> collector \<Rightarrow> collector" where
  "run unmarshal [] s = s"
| "run unmarshal (e # es) s = run unmarshal es (step unmarshal e s)"

text \<open>
  A sequence of messages and nothing else, with the flushes they start.
\<close>

fun handle_all :: "(string \<Rightarrow> (string \<times> json) list option) \<Rightarrow> (flush_io \<times> string \<times> string) list
    \<Rightarrow> collector \<Rightarrow> flush_result option list \<times> collector" where
  "handle_all unmarshal [] s = ([], s)"
| "handle_all unmarshal ((io, ts, message) # ms) s =
     (case handleAISMessage unmarshal io ts message s of
        (r, s') \<Rightarrow> (case handle_all unmarshal ms s' of (rs, s'') \<Rightarrow> (r # rs, s'')))"

text \<open>
  The states seen between two critical sections: the initial one, and the state after
  each section guarded by the mutex (the append, the flush) or after the unguarded update
  of the progress marker, in any interleaving of the socket reader and the timer.
\<close>

inductive_set observable :: "collector set" where
  initial: "init \<in> observable"
| append: "s \<in> observable \<Longrightarrow> append_locked rcd s \<in> observable"
| progress: "s \<in> observable \<Longrightarrow> log_progress s \<in> observable"
| flush: "s \<in> observable \<Longrightarrow> snd (saveToParquet io s) \<in> observable"

subsection \<open>The decoding condition in the words of the specification\<close>

text \<open>The value at a path of field names inside a decoded JSON value.\<close>

fun lookup_path :: "json \<Rightarrow> string list \<Rightarrow> json option" where
  "lookup_path v [] = Some v"
| "lookup_path (JObject kvs) (k # ks) =
     (case map_of kvs k of None \<Rightarrow> None | Some v \<Rightarrow> lookup_path v ks)"
| "lookup_path v (k # ks) = None"

text \<open>
  The payload is valid JSON (an object) that holds a JSON number at the path
  \<^verbatim>\<open>Message.PositionReport.UserID\<close>; the result is that number.
\<close>

definition user_id :: "(string \<Rightarrow> (string \<times> json) list option) \<Rightarrow> string \<Rightarrow> float64 option" where
  "user_id unmarshal message =
     (case unmarshal message of
        None \<Rightarrow> None
      | Some data \<Rightarrow>
          (case lookup_path (JObject data) [''Message'', ''PositionReport'', ''UserID''] of
             Some (JNumber x) \<Rightarrow> Some x
           | _ \<Rightarrow> None))"

text \<open>The records a list of accepted messages puts into the buffer, in order.\<close>

definition records_of :: "(string \<Rightarrow> (string \<times> json) list option) \<Rightarrow> (flush_io \<times> string \<times> string) list
    \<Rightarrow> AISRecord list" where
  "records_of unmarshal ms =
     map (\<lambda>(io, ts, message).
       \<lparr>Timestamp = ts,
        MMSI = (case unmarshal message of None \<Rightarrow> [] | Some data \<Rightarrow> extractMMSI data),
        RawJSON = message\<rparr>) ms"

text \<open>A payload that \<^verbatim>\<open>handleAISMessage\<close> decodes: it parses and yields an identifier.\<close>

definition decodes :: "(string \<Rightarrow> (string \<times> json) list option) \<Rightarrow> string \<Rightarrow> bool" where
  "decodes unmarshal message =
     (case unmarshal message of None \<Rightarrow> False | Some data \<Rightarrow> extractMMSI data \<noteq> [])"

text \<open>Every record in the buffer and in every finalized file carries a decodable payload.\<close>

definition only_decoded :: "(string \<Rightarrow> (string \<times> json) list option) \<Rightarrow> collector \<Rightarrow> bool" where
  "only_decoded unmarshal s \<longleftrightarrow>
     (\<forall>r \<in> set (aisRecords s). decodes unmarshal (RawJSON r)) \<and>
     (\<forall>p rows. disk s p = Some (Finished rows) \<longrightarrow> (\<forall>r \<in> set rows. decodes unmarshal (RawJSON r)))"

section \<open>Dates and the file catalog (api.go)\<close>

subsection \<open>Dates of package time\<close>

definition isLeap :: "nat \<Rightarrow> bool" where
  "isLeap year \<longleftrightarrow> year mod 4 = 0 \<and> (year mod 100 \<noteq> 0 \<or> year mod 400 = 0)"

text \<open>\<^verbatim>\<open>daysIn(m, year)\<close>, for a month from 1 to 12.\<close>

definition daysIn :: "nat \<Rightarrow> nat \<Rightarrow> nat" where
  "daysIn m year =
     (if m = 2 then (if isLeap year then 29 else 28)
      else if m = 4 \<or> m = 6 \<or> m = 9 \<or> m = 11 then 30 else 31)"

definition isDigit :: "char \<Rightarrow> bool" where
  "isDigit c \<longleftrightarrow> CHR ''0'' \<le> c \<and> c \<le> CHR ''9''"

definition digit_value :: "char \<Rightarrow> nat" where
  "digit_value c = of_char c - 48"

text \<open>
  \<^verbatim>\<open>time.Parse("2006-01-02", value)\<close>: four digits of the year, two of the month, two
  of the day, separated by hyphens, and nothing after them; the month must be in 1 to
  12 and the day must exist in that month. The result is midnight UTC of that day;
  \<open>None\<close> is the error.
\<close>

definition Parse :: "string \<Rightarrow> Time option" where
  "Parse value =
     (case value of
        [y1, y2, y3, y4, s1, m1, m2, s2, d1, d2] \<Rightarrow>
          if isDigit y1 \<and> isDigit y2 \<and> isDigit y3 \<and> isDigit y4 \<and> s1 = CHR ''-'' \<and>
             isDigit m1 \<and> isDigit m2 \<and> s2 = CHR ''-'' \<and> isDigit d1 \<and> isDigit d2
          then
            let year = digit_value y1 * 1000 + digit_value y2 * 100 + digit_value y3 * 10 + digit_value y4;
                month = digit_value m1 * 10 + digit_value m2;
                day = digit_value d1 * 10 + digit_value d2
            in if month < 1 \<or> 12 < month then None
               else if day < 1 \<or> daysIn month year < day then None
               else Some \<lparr>Year = year, Month = month, Day = day, Hour = 0, Minute = 0, Second = 0\<rparr>
          else None
      | _ \<Rightarrow> None)"

text \<open>
  \<^verbatim>\<open>getFilePaths\<close> drops the error of \<^verbatim>\<open>time.Parse\<close>: on an error the value is
  the zero \<^verbatim>\<open>Time\<close>, 1 January of year 1.
\<close>

definition Parse_ignoring_error :: "string \<Rightarrow> Time" where
  "Parse_ignoring_error value =
     (case Parse value of
        Some t \<Rightarrow> t
      | None \<Rightarrow> \<lparr>Year = 1, Month = 1, Day = 1, Hour = 0, Minute = 0, Second = 0\<rparr>)"

text \<open>
  The reading of a \<^verbatim>\<open>Time\<close> as a list, most significant field first. Two values of
  one location with a fixed offset compare as instants the way their readings compare in
  the lexicographic order of lists.
\<close>

definition clock :: "Time \<Rightarrow> nat list" where
  "clock t = [Year t, Month t, Day t, Hour t, Minute t, Second t]"

text \<open>\<^verbatim>\<open>t.After(u)\<close>\<close>

definition After :: "Time \<Rightarrow> Time \<Rightarrow> bool" where
  "After t u \<longleftrightarrow> clock u < clock t"

text \<open>
  \<^verbatim>\<open>t.AddDate(0, 0, 1)\<close>, that is \<^verbatim>\<open>Date(year, month, day+1, ...)\<close>, for a date that
  exists (the loop of \<^verbatim>\<open>getFilePaths\<close> starts from one and meets no other): a day past
  the end of the month is normalized to the first day of the next month.
\<close>

definition AddDate_day :: "Time \<Rightarrow> Time" where
  "AddDate_day t =
     (if Day t < daysIn (Month t) (Year t) then t\<lparr>Day := Day t + 1\<rparr>
      else if Month t < 12 then t\<lparr>Month := Month t + 1, Day := 1\<rparr>
      else t\<lparr>Year := Year t + 1, Month := 1, Day := 1\<rparr>)"

subsection \<open>Globbing of package path/filepath\<close>

text \<open>
  \<^verbatim>\<open>filepath.Match\<close> for a pattern of literal characters and \<^verbatim>\<open>*\<close>, which matches any
  sequence of characters other than the separator. (The patterns of \<^verbatim>\<open>getFilePaths\<close>
  hold digits, hyphens, an underscore, one star and the extension.)
\<close>

fun Match :: "string \<Rightarrow> string \<Rightarrow> bool" where
  "Match [] [] = True"
| "Match [] (c # cs) = False"
| "Match (p # ps) [] = (p = CHR ''*'' \<and> Match ps [])"
| "Match (p # ps) (c # cs) =
     (if p = CHR ''*'' then Match ps (c # cs) \<or> (c \<noteq> CHR ''/'' \<and> Match (p # ps) cs)
      else p = c \<and> Match ps cs)"

text \<open>\<^verbatim>\<open>filepath.Split\<close>: the path up to and with its last separator, and the rest.\<close>

definition Split :: "string \<Rightarrow> string \<times> string" where
  "Split path =
     (let file = rev (takeWhile (\<lambda>c. c \<noteq> CHR ''/'') (rev path))
      in (take (length path - length file) path, file))"

text \<open>
  \<^verbatim>\<open>filepath.Glob\<close> for a pattern whose directory part has no wildcard: the names of
  the directory are read, sorted as strings, and those that match the file part are
  returned, joined to the directory. \<open>readdir\<close> gives the names in a directory (none when
  it does not exist); errors are ignored as \<^verbatim>\<open>Glob\<close> ignores them.
\<close>

definition Glob :: "(string \<Rightarrow> string list) \<Rightarrow> string \<Rightarrow> string list" where
  "Glob readdir pattern =
     (case Split pattern of
        (dir, file) \<Rightarrow> map (\<lambda>n. dir @ n) (filter (Match file) (sort (readdir (butlast dir)))))"

subsection \<open>File resolution and the request middleware\<close>

text \<open>
  The loop of \<^verbatim>\<open>getFilePaths\<close>. Beside \<^verbatim>\<open>files\<close> it keeps the patterns handed to
  \<^verbatim>\<open>filepath.Glob\<close> so far: the accesses to the file system.
\<close>

function getFilePaths_loop ::
  "(string \<Rightarrow> string list) \<Rightarrow> Time \<Rightarrow> Time \<Rightarrow> string list \<times> string list \<Rightarrow> string list \<times> string list" where
  "getFilePaths_loop readdir d fin (files, globbed) =
     (if After d fin then (files, globbed)
      else let pattern = ''ais_data/'' @ Format_date d @ ''_*.parquet'';
               matches = Glob readdir pattern
           in getFilePaths_loop readdir (AddDate_day d) fin (files @ matches, globbed @ [pattern]))"
  by pat_completeness auto
termination
  by (relation "measures [\<lambda>(rd, d, fin, acc). Year fin + 1 - Year d,
                          \<lambda>(rd, d, fin, acc). 12 - Month d,
                          \<lambda>(rd, d, fin, acc). 31 - Day d]")
     (auto simp: After_def clock_def AddDate_day_def daysIn_def split: if_splits)

definition getFilePaths_run :: "(string \<Rightarrow> string list) \<Rightarrow> string \<Rightarrow> string \<Rightarrow> string list \<times> string list" where
  "getFilePaths_run readdir from to =
     getFilePaths_loop readdir (Parse_ignoring_error from) (Parse_ignoring_error to) ([], [])"

definition getFilePaths :: "(string \<Rightarrow> string list) \<Rightarrow> string \<Rightarrow> string \<Rightarrow> string list" where
  "getFilePaths readdir from to = fst (getFilePaths_run readdir from to)"

text \<open>
  How \<^verbatim>\<open>middlewareDateRange\<close> ends: the request is aborted with a status and an error
  message, or it goes on to the handler with the two dates and the files in its context.
\<close>

datatype response = Abort nat string | Next Time Time "string list"

text \<open>\<^verbatim>\<open>c.DefaultQuery(key, defaultValue)\<close>, with the value of the key when it is present.\<close>

definition DefaultQuery :: "string option \<Rightarrow> string \<Rightarrow> string" where
  "DefaultQuery param defaultValue = (case param of Some v \<Rightarrow> v | None \<Rightarrow> defaultValue)"

text \<open>
  \<^verbatim>\<open>middlewareDateRange\<close>. \<open>today\<close> is \<^verbatim>\<open>time.Now().UTC().Format(layout)\<close>, \<open>qfrom\<close> and
  \<open>qto\<close> are the query parameters. The second component is the list of patterns handed
  to \<^verbatim>\<open>filepath.Glob\<close> while the request was served.
\<close>

definition middlewareDateRange ::
  "(string \<Rightarrow> string list) \<Rightarrow> string \<Rightarrow> string option \<Rightarrow> string option \<Rightarrow> response \<times> string list" where
  "middlewareDateRange readdir today qfrom qto =
     (let fromStr = DefaultQuery qfrom today;
          toStr = DefaultQuery qto fromStr
      in case Parse fromStr of
           None \<Rightarrow> (Abort 400 ''Invalid 'from' date format (expected YYYY-MM-DD)'', [])
         | Some from \<Rightarrow>
             (case Parse toStr of
                None \<Rightarrow> (Abort 400 ''Invalid 'to' date format (expected YYYY-MM-DD)'', [])
              | Some to \<Rightarrow>
                  (case getFilePaths_run readdir fromStr toStr of
                     (files, globbed) \<Rightarrow>
                       if length files = 0
                       then (Abort 404 ''No data available for the requested period'', globbed)
                       else (Next from to files, globbed))))"

subsection \<open>The resolution in the words of the specification\<close>

text \<open>A calendar day: midnight of a day that exists.\<close>

definition is_date :: "Time \<Rightarrow> bool" where
  "is_date t \<longleftrightarrow> 1 \<le> Month t \<and> Month t \<le> 12 \<and> 1 \<le> Day t \<and> Day t \<le> daysIn (Month t) (Year t) \<and>
     Hour t = 0 \<and> Minute t = 0 \<and> Second t = 0"

text \<open>
  A partition file name whose date prefix is the day \<open>d\<close>: the date, an underscore, the
  rest of the name, and the extension.
\<close>

definition date_prefixed :: "Time \<Rightarrow> string \<Rightarrow> bool" where
  "date_prefixed d name \<longleftrightarrow>
     (let p = Format_date d @ ''_''
      in take (length p) name = p \<and> length p + 8 \<le> length name \<and>
         drop (length name - 8) name = ''.parquet'')"

text \<open>The paths of the partitions of day \<open>d\<close>, in lexicographic order.\<close>

definition partitions_on :: "(string \<Rightarrow> string list) \<Rightarrow> Time \<Rightarrow> string list" where
  "partitions_on readdir d =
     map (\<lambda>n. ''ais_data/'' @ n) (sort (filter (date_prefixed d) (readdir ''ais_data'')))"

text \<open>The days the loop of \<^verbatim>\<open>getFilePaths\<close> goes through.\<close>

function days_between :: "Time \<Rightarrow> Time \<Rightarrow> Time list" where
  "days_between d fin = (if After d fin then [] else d # days_between (AddDate_day d) fin)"
  by pat_completeness auto
termination
  by (relation "measures [\<lambda>(d, fin). Year fin + 1 - Year d,
                          \<lambda>(d, fin). 12 - Month d,
                          \<lambda>(d, fin). 31 - Day d]")
     (auto simp: After_def clock_def AddDate_day_def daysIn_def split: if_splits)

declare getFilePaths_loop.simps [simp del] days_between.simps [simp del]

subsection \<open>The file name in the words of the specification\<close>

text \<open>
  A clock reading with a year of four digits and every other field in its range (the
  lower bounds of month and day play no part).
\<close>

definition in_range :: "Time \<Rightarrow> bool" where
  "in_range t \<longleftrightarrow> Year t \<le> 9999 \<and> Month t \<le> 12 \<and> Day t \<le> 31 \<and>
     Hour t \<le> 23 \<and> Minute t \<le> 59 \<and> Second t \<le> 59"

text \<open>
  A name of the form \<^verbatim>\<open>ais_data/YYYY-MM-DD_HH-MM-SS.parquet\<close>: the directory, fourteen
  digits with the separators at their places, and the extension.
\<close>

definition stamp_form :: "string \<Rightarrow> bool" where
  "stamp_form p \<longleftrightarrow> length p = 36 \<and> take 9 p = ''ais_data/'' \<and> drop 28 p = ''.parquet'' \<and>
     list_all (\<lambda>i. isDigit (p ! i)) [9, 10, 11, 12, 14, 15, 17, 18, 20, 21, 23, 24, 26, 27] \<and>
     map (\<lambda>i. p ! i) [13, 16, 19, 22, 25] = ''--_--''"

subsection \<open>Instants\<close>

text \<open>
  The days from 1 January of year 1 to the date of a reading, in the proleptic Gregorian
  calendar, as \<^verbatim>\<open>time.Date\<close> counts them: the days of the years before, of the months
  before in the year, and of the days before in the month.
\<close>

definition abs_days :: "Time \<Rightarrow> int" where
  "abs_days t =
     (let y = int (Year t) - 1
      in 365 * y + y div 4 - y div 100 + y div 400
         + int (sum_list (map (\<lambda>m. daysIn m (Year t)) [1..<Month t]))
         + (int (Day t) - 1))"

text \<open>
  The instant of a \<^verbatim>\<open>time.Time\<close>, in seconds since 1 January of year 1, 00:00:00 UTC
  (the absolute time of package time): the seconds of its reading, less the offset from
  UTC that its location has at that moment, in seconds east of Greenwich.
\<close>

definition instant :: "Time \<Rightarrow> int \<Rightarrow> int" where
  "instant t offset =
     abs_days t * 86400 + int (Hour t) * 3600 + int (Minute t) * 60 + int (Second t) - offset"

section \<open>Sample inputs\<close>

text \<open>
  A data directory with four partitions and one other file, and three consecutive days.
\<close>

definition readdir_sample :: "string \<Rightarrow> string list" where
  "readdir_sample dir = (if dir = ''ais_data'' then
     [''2023-09-02_13-00-00.parquet'', ''2023-09-01_12-00-00.parquet'',
      ''2023-09-01_10-00-00.parquet'', ''2023-09-04_00-00-00.parquet'', ''notes.txt'']
     else [])"

definition day1 :: Time where
  "day1 = \<lparr>Year = 2023, Month = 9, Day = 1, Hour = 0, Minute = 0, Second = 0\<rparr>"

definition day2 :: Time where
  "day2 = \<lparr>Year = 2023, Month = 9, Day = 2, Hour = 0, Minute = 0, Second = 0\<rparr>"

definition day3 :: Time where
  "day3 = \<lparr>Year = 2023, Month = 9, Day = 3, Hour = 0, Minute = 0, Second = 0\<rparr>"

text \<open>
  Two readings of the clock of New York on 5 November 2023, the day daylight saving time
  ends there (at 02:00 EDT the clock goes back to 01:00 EST): 01:30:00 in EDT, four
  hours west of UTC, and 01:10:00 in EST, five hours west. And the Unix epoch in UTC.
\<close>

definition edt_0130 :: Time where
  "edt_0130 = \<lparr>Year = 2023, Month = 11, Day = 5, Hour = 1, Minute = 30, Second = 0\<rparr>"

definition est_0110 :: Time where
  "est_0110 = \<lparr>Year = 2023, Month = 11, Day = 5, Hour = 1, Minute = 10, Second = 0\<rparr>"

definition unix_epoch :: Time where
  "unix_epoch = \<lparr>Year = 1970, Month = 1, Day = 1, Hour = 0, Minute = 0, Second = 0\<rparr>"


definition t0 :: Time where
  "t0 = \<lparr>Year = 2023, Month = 9, Day = 1, Hour = 12, Minute = 0, Second = 0\<rparr>"

definition io_ok :: flush_io where
  "io_ok = \<lparr>now = t0, create_err = False, init_err = False, write_err = (\<lambda>_. False),
     kept_on_err = (\<lambda>_. True), stop_err = False\<rparr>"

definition io_create_fails :: flush_io where
  "io_create_fails = io_ok\<lparr>create_err := True\<rparr>"

definition io_stop_fails :: flush_io where
  "io_stop_fails = io_ok\<lparr>stop_err := True\<rparr>"

definition rec1 :: AISRecord where
  "rec1 = \<lparr>Timestamp = ''2023-09-01T11:59:58Z'', MMSI = ''111111111'', RawJSON = ''m1''\<rparr>"

definition rec2 :: AISRecord where
  "rec2 = \<lparr>Timestamp = ''2023-09-01T11:59:59Z'', MMSI = ''222222222'', RawJSON = ''m2''\<rparr>"

definition buf2 :: collector where
  "buf2 = \<lparr>aisRecords = [rec1, rec2], recordCount = 2, lastLogPercent = 0, disk = Map.empty\<rparr>"

text \<open>The same buffer, with a finished file of an earlier flush at the path of the next one.\<close>

definition rec0 :: AISRecord where
  "rec0 = \<lparr>Timestamp = ''2023-09-01T11:00:00Z'', MMSI = ''333333333'', RawJSON = ''m0''\<rparr>"

definition buf2_existing :: collector where
  "buf2_existing = buf2\<lparr>disk := [getNewFilePath t0 \<mapsto> Finished [rec0]]\<rparr>"

text \<open>
  A position report and a static-data report of the same ship, and a decoder that knows
  these two payloads and rejects every other one.
\<close>

definition msg1 :: string where
  \<open>msg1 = ''{"Message":{"PositionReport":{"UserID":273450000}}}''\<close>

definition decoded1 :: "(string \<times> json) list" where
  "decoded1 = [(''Message'', JObject [(''PositionReport'',
       JObject [(''UserID'', JNumber (Float64 False 273450000 0))])])]"

definition msg_static :: string where
  \<open>msg_static = ''{"Message":{"ShipStaticData":{"UserID":273450000}}}''\<close>

definition decoded_static :: "(string \<times> json) list" where
  "decoded_static = [(''Message'', JObject [(''ShipStaticData'',
       JObject [(''UserID'', JNumber (Float64 False 273450000 0))])])]"

definition sample_unmarshal :: "string \<Rightarrow> (string \<times> json) list option" where
  "sample_unmarshal m = (if m = msg1 then Some decoded1
     else if m = msg_static then Some decoded_static else None)"

section \<open>Helper lemmas for the collector\<close>

lemma decimal_nonempty: "decimal n \<noteq> []"
  by (subst decimal.simps) simp

lemma Sprintf_0f_nonempty: "Sprintf_0f x \<noteq> []"
  by (simp add: Sprintf_0f_def decimal_nonempty)

lemma extractMMSI_user_id:
  "extractMMSI data =
     (case lookup_path (JObject data) [''Message'', ''PositionReport'', ''UserID''] of
        Some (JNumber x) \<Rightarrow> Sprintf_0f x | _ \<Rightarrow> [])"
  by (simp add: extractMMSI_def split: option.splits json.splits)

lemma handleAISMessage_eq:
  "handleAISMessage unmarshal io ts message s =
     (case user_id unmarshal message of
        Some x \<Rightarrow> capacity_flush io (log_progress (append_locked
                    \<lparr>Timestamp = ts, MMSI = Sprintf_0f x, RawJSON = message\<rparr> s))
      | None \<Rightarrow> (None, s))"
  by (simp add: handleAISMessage_def user_id_def extractMMSI_user_id Sprintf_0f_nonempty
        split: option.splits json.splits)

lemma write_loop_set: "set (write_loop werr kept i recs rows) \<subseteq> set recs \<union> set rows"
proof (induction recs arbitrary: i rows)
  case Nil
  show ?case by simp
next
  case (Cons a recs)
  have "set (write_loop werr kept (Suc i) recs rows) \<subseteq> set recs \<union> set rows"
    by (rule Cons.IH)
  moreover have "set (write_loop werr kept (Suc i) recs (rows @ [a])) \<subseteq> set recs \<union> set (rows @ [a])"
    by (rule Cons.IH)
  ultimately show ?case by auto
qed

lemma write_loop_accept_all:
  "(\<forall>j. \<not> werr j) \<Longrightarrow> write_loop werr kept i recs rows = rows @ recs"
  by (induction recs arbitrary: i rows) auto

lemma count_inv_saveToParquet:
  "recordCount s = int (length (aisRecords s)) \<Longrightarrow>
   recordCount (snd (saveToParquet io s)) = int (length (aisRecords (snd (saveToParquet io s))))"
  by (simp add: saveToParquet_def Let_def)

lemma handle_all_Cons:
  "handle_all unmarshal ((io, ts, m) # ms) s =
     (fst (handleAISMessage unmarshal io ts m s)
        # fst (handle_all unmarshal ms (snd (handleAISMessage unmarshal io ts m s))),
      snd (handle_all unmarshal ms (snd (handleAISMessage unmarshal io ts m s))))"
  by (simp split: prod.splits)

lemma log_progress_fields [simp]:
  "aisRecords (log_progress s) = aisRecords s"
  "recordCount (log_progress s) = recordCount s"
  "disk (log_progress s) = disk s"
  by (simp_all add: log_progress_def Let_def)

lemma handle_below_capacity:
  assumes "user_id unmarshal message = Some x" and "recordCount s + 1 < MaxRecordsPerFile"
  shows "handleAISMessage unmarshal io ts message s =
     (None, log_progress (append_locked \<lparr>Timestamp = ts, MMSI = Sprintf_0f x, RawJSON = message\<rparr> s))"
  using assms
  by (simp add: handleAISMessage_eq capacity_flush_def append_locked_def)

lemma user_id_extract:
  "user_id unmarshal message = Some x \<Longrightarrow>
   (case unmarshal message of None \<Rightarrow> [] | Some data \<Rightarrow> extractMMSI data) = Sprintf_0f x"
  by (auto simp: user_id_def extractMMSI_user_id split: option.splits json.splits)

lemma handle_all_below_capacity:
  assumes "\<forall>(io, ts, m) \<in> set ms. user_id unmarshal m \<noteq> None"
    and "recordCount s + int (length ms) < MaxRecordsPerFile"
  shows "fst (handle_all unmarshal ms s) = replicate (length ms) None \<and>
         aisRecords (snd (handle_all unmarshal ms s)) = aisRecords s @ records_of unmarshal ms \<and>
         recordCount (snd (handle_all unmarshal ms s)) = recordCount s + int (length ms) \<and>
         disk (snd (handle_all unmarshal ms s)) = disk s"
  using assms
proof (induction ms arbitrary: s)
  case Nil
  show ?case by (simp add: records_of_def)
next
  case (Cons e ms)
  obtain io ts m where e: "e = (io, ts, m)" by (cases e) auto
  from Cons.prems(1) e obtain x where x: "user_id unmarshal m = Some x" by auto
  let ?s1 = "log_progress (append_locked \<lparr>Timestamp = ts, MMSI = Sprintf_0f x, RawJSON = m\<rparr> s)"
  from Cons.prems(2) have small: "recordCount s + 1 < MaxRecordsPerFile" by simp
  have h: "handleAISMessage unmarshal io ts m s = (None, ?s1)"
    by (rule handle_below_capacity [OF x small])
  have c1: "recordCount ?s1 = recordCount s + 1" by (simp add: append_locked_def)
  have "\<forall>(io, ts, m) \<in> set ms. user_id unmarshal m \<noteq> None" using Cons.prems(1) by simp
  moreover have "recordCount ?s1 + int (length ms) < MaxRecordsPerFile"
    using Cons.prems(2) c1 by simp
  ultimately have IH: "fst (handle_all unmarshal ms ?s1) = replicate (length ms) None \<and>
         aisRecords (snd (handle_all unmarshal ms ?s1)) = aisRecords ?s1 @ records_of unmarshal ms \<and>
         recordCount (snd (handle_all unmarshal ms ?s1)) = recordCount ?s1 + int (length ms) \<and>
         disk (snd (handle_all unmarshal ms ?s1)) = disk ?s1"
    by (rule Cons.IH)
  have r: "records_of unmarshal (e # ms) =
      \<lparr>Timestamp = ts, MMSI = Sprintf_0f x, RawJSON = m\<rparr> # records_of unmarshal ms"
    by (simp add: records_of_def e user_id_extract [OF x])
  show ?case
    using IH unfolding e handle_all_Cons h r [unfolded e]
    by (simp add: c1 append_locked_def)
qed

lemma handle_all_append:
  "handle_all unmarshal (ms @ ms') s =
     (fst (handle_all unmarshal ms s) @ fst (handle_all unmarshal ms' (snd (handle_all unmarshal ms s))),
      snd (handle_all unmarshal ms' (snd (handle_all unmarshal ms s))))"
  by (induction ms arbitrary: s) (auto split: prod.splits)

lemma saveToParquet_success:
  assumes "recordCount s \<noteq> 0" "\<not> create_err io" "\<not> init_err io" "\<not> stop_err io"
  shows "saveToParquet io s = (Written, s\<lparr>aisRecords := [], recordCount := 0,
           disk := (disk s)(getNewFilePath (now io) \<mapsto>
             Finished (write_loop (write_err io) (kept_on_err io) 0 (aisRecords s) []))\<rparr>)"
  using assms by (simp add: saveToParquet_def Let_def)

lemma handle_at_capacity:
  assumes x: "user_id unmarshal message = Some x"
    and full: "recordCount s + 1 = MaxRecordsPerFile"
    and ok: "\<not> create_err io" "\<not> init_err io" "\<not> stop_err io" "\<forall>i. \<not> write_err io i"
  shows "fst (handleAISMessage unmarshal io ts message s) = Some Written \<and>
     aisRecords (snd (handleAISMessage unmarshal io ts message s)) = [] \<and>
     recordCount (snd (handleAISMessage unmarshal io ts message s)) = 0 \<and>
     disk (snd (handleAISMessage unmarshal io ts message s)) =
       (disk s)(getNewFilePath (now io) \<mapsto>
          Finished (aisRecords s @ [\<lparr>Timestamp = ts, MMSI = Sprintf_0f x, RawJSON = message\<rparr>]))"
proof -
  let ?s2 = "log_progress (append_locked \<lparr>Timestamp = ts, MMSI = Sprintf_0f x, RawJSON = message\<rparr> s)"
  have c: "recordCount ?s2 = MaxRecordsPerFile"
    using full by (simp add: append_locked_def)
  then have nz: "recordCount ?s2 \<noteq> 0" by (simp add: MaxRecordsPerFile_def)
  have h: "handleAISMessage unmarshal io ts message s = (Some Written, snd (saveToParquet io ?s2))"
    using c by (simp add: handleAISMessage_eq x capacity_flush_def
        saveToParquet_success [OF nz ok(1) ok(2) ok(3)])
  show ?thesis
    unfolding h saveToParquet_success [OF nz ok(1) ok(2) ok(3)]
    using ok(4) by (simp add: write_loop_accept_all append_locked_def)
qed

lemma digit_values:
  "digit 0 = CHR ''0''" "digit 1 = CHR ''1''" "digit 2 = CHR ''2''" "digit 3 = CHR ''3''"
  "digit 4 = CHR ''4''" "digit 5 = CHR ''5''" "digit 6 = CHR ''6''" "digit 7 = CHR ''7''"
  "digit 8 = CHR ''8''" "digit 9 = CHR ''9''"
  by code_simp+

lemma mmsi1: "extractMMSI decoded1 = ''273450000''"
  by (simp add: extractMMSI_def decoded1_def Sprintf_0f_def round_half_even_def decimal.simps digit_values)

lemma uid1: "user_id sample_unmarshal msg1 = Some (Float64 False 273450000 0)"
  by (simp add: user_id_def sample_unmarshal_def decoded1_def)

lemma only_decoded_saveToParquet:
  assumes "only_decoded unmarshal s"
  shows "only_decoded unmarshal (snd (saveToParquet io s))"
proof -
  have "\<forall>r \<in> set (write_loop (write_err io) (kept_on_err io) 0 (aisRecords s) []).
      decodes unmarshal (RawJSON r)"
    using assms write_loop_set [of "write_err io" "kept_on_err io" 0 "aisRecords s" "[]"]
    by (auto simp: only_decoded_def)
  then show ?thesis
    using assms by (auto simp: only_decoded_def saveToParquet_def Let_def)
qed

lemma only_decoded_log_progress:
  "only_decoded unmarshal (log_progress s) = only_decoded unmarshal s"
  by (simp add: only_decoded_def)

lemma only_decoded_handle:
  assumes "only_decoded unmarshal s"
  shows "only_decoded unmarshal (snd (handleAISMessage unmarshal io ts message s))"
proof (cases "decodes unmarshal message")
  case False
  then have "handleAISMessage unmarshal io ts message s = (None, s)"
    by (auto simp: handleAISMessage_def decodes_def split: option.splits)
  with assms show ?thesis by simp
next
  case True
  then obtain data where d: "unmarshal message = Some data" "extractMMSI data \<noteq> []"
    by (auto simp: decodes_def split: option.splits)
  let ?s1 = "append_locked \<lparr>Timestamp = ts, MMSI = extractMMSI data, RawJSON = message\<rparr> s"
  have "only_decoded unmarshal ?s1"
    using assms True by (auto simp: only_decoded_def append_locked_def)
  then have 2: "only_decoded unmarshal (log_progress ?s1)"
    by (simp add: only_decoded_log_progress)
  have "snd (handleAISMessage unmarshal io ts message s) = log_progress ?s1 \<or>
        snd (handleAISMessage unmarshal io ts message s) = snd (saveToParquet io (log_progress ?s1))"
    using d by (simp add: handleAISMessage_def capacity_flush_def Let_def split: prod.splits)
  with 2 only_decoded_saveToParquet [OF 2, of io] show ?thesis by auto
qed

lemma only_decoded_run:
  "only_decoded unmarshal s \<Longrightarrow> only_decoded unmarshal (run unmarshal evs s)"
proof (induction evs arbitrary: s)
  case Nil
  then show ?case by simp
next
  case (Cons e evs)
  have "only_decoded unmarshal (step unmarshal e s)"
    using Cons.prems by (cases e) (simp_all add: only_decoded_handle only_decoded_saveToParquet)
  then show ?case by (simp add: Cons.IH)
qed

lemma handleAISMessage_observable:
  "s \<in> observable \<Longrightarrow> snd (handleAISMessage unmarshal io ts message s) \<in> observable"
proof -
  assume s: "s \<in> observable"
  have c: "snd (capacity_flush io t) \<in> observable" if "t \<in> observable" for t
    using that observable.flush [OF that, of io]
    by (simp add: capacity_flush_def case_prod_unfold)
  show ?thesis
    using s by (auto simp: handleAISMessage_def Let_def split: option.splits
        intro!: c observable.progress observable.append)
qed

lemma capacity_flush_changes:
  assumes "aisRecords t \<noteq> aisRecords s" and "recordCount t = recordCount s + 1"
  shows "snd (capacity_flush io t) \<noteq> s"
proof (cases "recordCount t \<ge> MaxRecordsPerFile")
  case False
  with assms show ?thesis by (auto simp: capacity_flush_def)
next
  case True
  then have nz: "recordCount t \<noteq> 0" by (simp add: MaxRecordsPerFile_def)
  have "aisRecords (snd (saveToParquet io t)) = aisRecords t \<or>
        recordCount (snd (saveToParquet io t)) = 0"
    by (simp add: saveToParquet_def Let_def)
  moreover have "recordCount s \<noteq> 0"
    using True assms(2) by (simp add: MaxRecordsPerFile_def)
  ultimately show ?thesis
    using True assms(1) by (auto simp: capacity_flush_def case_prod_unfold)
qed

lemma dom_disk_saveToParquet: "dom (disk s) \<subseteq> dom (disk (snd (saveToParquet io s)))"
  by (auto simp: saveToParquet_def Let_def)

lemma dom_disk_handleAISMessage:
  "dom (disk s) \<subseteq> dom (disk (snd (handleAISMessage unmarshal io ts message s)))"
proof (cases "user_id unmarshal message")
  case None
  then show ?thesis by (simp add: handleAISMessage_eq)
next
  case (Some x)
  let ?t = "log_progress (append_locked \<lparr>Timestamp = ts, MMSI = Sprintf_0f x, RawJSON = message\<rparr> s)"
  have d: "disk ?t = disk s" by (simp add: append_locked_def)
  have "snd (capacity_flush io ?t) = ?t \<or> snd (capacity_flush io ?t) = snd (saveToParquet io ?t)"
    by (simp add: capacity_flush_def case_prod_unfold)
  then have "dom (disk ?t) \<subseteq> dom (disk (snd (capacity_flush io ?t)))"
    using dom_disk_saveToParquet [of ?t io] by auto
  then show ?thesis
    unfolding d by (simp add: handleAISMessage_eq Some)
qed

lemma dom_disk_run: "dom (disk s) \<subseteq> dom (disk (run unmarshal evs s))"
proof (induction evs arbitrary: s)
  case Nil
  show ?case by simp
next
  case (Cons e evs)
  have "dom (disk s) \<subseteq> dom (disk (step unmarshal e s))"
    by (cases e) (simp_all add: dom_disk_handleAISMessage dom_disk_saveToParquet)
  also have "\<dots> \<subseteq> dom (disk (run unmarshal evs (step unmarshal e s)))"
    by (rule Cons.IH)
  finally show ?case by simp
qed

section \<open>Properties of the collector\<close>

text \<open>
  C9. A flush started while the record count is zero is a no-op: it returns through the
  "No data to save" branch and leaves the buffer, the count, the progress marker and the
  files on disk as they were.
\<close>

theorem saveToParquet_empty_noop:
  "recordCount s = 0 \<Longrightarrow> saveToParquet io s = (Skipped, s)"
  by (simp add: saveToParquet_def)

theorem saveToParquet_empty_noop_witness:
  "recordCount init = 0 \<and> saveToParquet io_ok init = (Skipped, init)"
  using saveToParquet_empty_noop [of init io_ok]
  by (simp add: init_def)

text \<open>
  C7. The record count equals the length of the record sequence in every state seen
  outside a critical section: in the initial state, after every append, after every
  flush however it ends, and after every update of the progress marker.
\<close>

theorem count_invariant:
  "s \<in> observable \<Longrightarrow> recordCount s = int (length (aisRecords s))"
proof (induction rule: observable.induct)
  case initial
  show ?case by (simp add: init_def)
next
  case (append s rcd)
  then show ?case by (simp add: append_locked_def)
next
  case (progress s)
  then show ?case by (simp add: log_progress_def Let_def)
next
  case (flush s io)
  from flush.IH show ?case by (rule count_inv_saveToParquet)
qed

theorem count_invariant_witness:
  "snd (saveToParquet io_ok (append_locked rec2 (append_locked rec1 init))) \<in> observable \<and>
   recordCount (snd (saveToParquet io_ok (append_locked rec2 (append_locked rec1 init)))) =
     int (length (aisRecords (snd (saveToParquet io_ok (append_locked rec2 (append_locked rec1 init))))))"
proof -
  have h: "snd (saveToParquet io_ok (append_locked rec2 (append_locked rec1 init))) \<in> observable"
    by (intro observable.intros)
  from count_invariant [OF h] h show ?thesis by simp
qed

text \<open>
  C2, as the code has it. A flush that fails (at file-writer creation, at writer
  initialization or at finalization) leaves the record sequence and the count as they
  were: the records stay in the buffer, and a later flush whose library calls succeed
  writes them.
\<close>

theorem failed_flush_keeps_buffer:
  assumes "saveToParquet io s = (r, s')" and "r \<in> {CreateFailed, InitFailed, StopFailed}"
  shows "aisRecords s' = aisRecords s \<and> recordCount s' = recordCount s \<and>
     (\<not> create_err io' \<and> \<not> init_err io' \<and> \<not> stop_err io' \<and> (\<forall>i. \<not> write_err io' i) \<longrightarrow>
        fst (saveToParquet io' s') = Written \<and>
        disk (snd (saveToParquet io' s')) (getNewFilePath (now io')) =
          Some (Finished (aisRecords s)))"
proof -
  from assms have nz: "recordCount s \<noteq> 0"
    by (auto simp: saveToParquet_def)
  from assms have keep: "aisRecords s' = aisRecords s" "recordCount s' = recordCount s"
    by (auto simp: saveToParquet_def Let_def split: if_splits)
  from nz keep have nz': "recordCount s' \<noteq> 0" by simp
  show ?thesis
    using keep by (simp add: saveToParquet_success [OF nz'] write_loop_accept_all)
qed

theorem failed_flush_keeps_buffer_witness:
  "saveToParquet io_create_fails buf2 = (CreateFailed, buf2) \<and>
   CreateFailed \<in> {CreateFailed, InitFailed, StopFailed} \<and>
   aisRecords buf2 = [rec1, rec2] \<and> recordCount buf2 = 2 \<and>
   \<not> create_err io_ok \<and> \<not> init_err io_ok \<and> \<not> stop_err io_ok \<and> (\<forall>i. \<not> write_err io_ok i) \<and>
   fst (saveToParquet io_ok buf2) = Written \<and>
   disk (snd (saveToParquet io_ok buf2)) (getNewFilePath (now io_ok)) =
      Some (Finished [rec1, rec2])"
proof -
  have h1: "saveToParquet io_create_fails buf2 = (CreateFailed, buf2)"
    by (simp add: saveToParquet_def buf2_def io_create_fails_def io_ok_def)
  have h2: "CreateFailed \<in> {CreateFailed, InitFailed, StopFailed}" by simp
  have h3: "\<not> create_err io_ok \<and> \<not> init_err io_ok \<and> \<not> stop_err io_ok \<and> (\<forall>i. \<not> write_err io_ok i)"
    by (simp add: io_ok_def)
  have b: "aisRecords buf2 = [rec1, rec2]" "recordCount buf2 = 2"
    by (simp_all add: buf2_def)
  from failed_flush_keeps_buffer [OF h1 h2, of io_ok] h1 h2 h3 b
  show ?thesis by metis
qed

text \<open>
  C2 as claimed (a failed flush discards the records, no later flush attempts them) fails:
  with two buffered records and a file writer that cannot be created, the buffer still
  holds both records after the flush, and the next flush writes both.
\<close>

theorem failed_flush_discards_counterexample:
  "saveToParquet io_create_fails buf2 = (CreateFailed, buf2) \<and>
   aisRecords (snd (saveToParquet io_create_fails buf2)) = [rec1, rec2] \<and>
   recordCount (snd (saveToParquet io_create_fails buf2)) = 2 \<and>
   disk (snd (saveToParquet io_ok (snd (saveToParquet io_create_fails buf2))))
     (getNewFilePath t0) = Some (Finished [rec1, rec2])"
  by (simp add: saveToParquet_def buf2_def io_create_fails_def io_ok_def)

text \<open>
  C3, as the code has it. The partition write is not all-or-nothing. With a non-zero
  record count it fails exactly when file-writer creation, writer initialization or
  finalization returns an error: a file that is already at the target path does not make
  it fail, nor does an error of \<^verbatim>\<open>pw.Write\<close>, which is only logged. When creation
  fails the state is unchanged; when initialization or finalization fails, the created,
  unfinished file is left at the target path and the buffer is kept. No file is ever
  removed: a path that holds a file holds one after any run of the collector. When no
  library call returns an error, the file at the target path holds exactly the given
  records in order, in place of whatever was there, and the buffer is cleared.
\<close>

theorem partition_write_not_atomic:
  assumes "recordCount s \<noteq> 0"
  shows "(fst (saveToParquet io s) = Written \<longleftrightarrow> \<not> create_err io \<and> \<not> init_err io \<and> \<not> stop_err io) \<and>
     (create_err io \<longrightarrow> saveToParquet io s = (CreateFailed, s)) \<and>
     (\<not> create_err io \<and> (init_err io \<or> stop_err io) \<longrightarrow>
        disk (snd (saveToParquet io s)) (getNewFilePath (now io)) = Some Unfinished \<and>
        aisRecords (snd (saveToParquet io s)) = aisRecords s \<and>
        recordCount (snd (saveToParquet io s)) = recordCount s) \<and>
     (\<not> create_err io \<and> \<not> init_err io \<and> \<not> stop_err io \<and> (\<forall>i. \<not> write_err io i) \<longrightarrow>
        saveToParquet io s =
          (Written, s\<lparr>aisRecords := [], recordCount := 0,
             disk := (disk s)(getNewFilePath (now io) \<mapsto> Finished (aisRecords s))\<rparr>)) \<and>
     dom (disk s) \<subseteq> dom (disk (run unmarshal evs s))"
proof -
  have 1: "fst (saveToParquet io s) = Written \<longleftrightarrow> \<not> create_err io \<and> \<not> init_err io \<and> \<not> stop_err io"
    using assms by (simp add: saveToParquet_def Let_def)
  have 2: "saveToParquet io s = (CreateFailed, s)" if "create_err io"
    using assms that by (simp add: saveToParquet_def)
  have 3: "disk (snd (saveToParquet io s)) (getNewFilePath (now io)) = Some Unfinished \<and>
        aisRecords (snd (saveToParquet io s)) = aisRecords s \<and>
        recordCount (snd (saveToParquet io s)) = recordCount s"
    if "\<not> create_err io \<and> (init_err io \<or> stop_err io)"
    using assms that by (auto simp: saveToParquet_def Let_def)
  have 4: "saveToParquet io s =
          (Written, s\<lparr>aisRecords := [], recordCount := 0,
             disk := (disk s)(getNewFilePath (now io) \<mapsto> Finished (aisRecords s))\<rparr>)"
    if "\<not> create_err io \<and> \<not> init_err io \<and> \<not> stop_err io \<and> (\<forall>i. \<not> write_err io i)"
    using assms that by (simp add: saveToParquet_success write_loop_accept_all)
  from 1 2 3 4 dom_disk_run [of s unmarshal evs] show ?thesis by blast
qed

theorem partition_write_not_atomic_witness:
  "recordCount buf2_existing \<noteq> 0 \<and>
   \<not> create_err io_stop_fails \<and> stop_err io_stop_fails \<and>
   fst (saveToParquet io_stop_fails buf2_existing) \<noteq> Written \<and>
   disk (snd (saveToParquet io_stop_fails buf2_existing)) (getNewFilePath (now io_stop_fails)) =
     Some Unfinished \<and>
   aisRecords (snd (saveToParquet io_stop_fails buf2_existing)) = [rec1, rec2] \<and>
   recordCount (snd (saveToParquet io_stop_fails buf2_existing)) = 2 \<and>
   \<not> create_err io_ok \<and> \<not> init_err io_ok \<and> \<not> stop_err io_ok \<and> (\<forall>i. \<not> write_err io_ok i) \<and>
   saveToParquet io_ok buf2_existing =
     (Written, buf2_existing\<lparr>aisRecords := [], recordCount := 0,
        disk := [getNewFilePath t0 \<mapsto> Finished [rec1, rec2]]\<rparr>) \<and>
   getNewFilePath t0 \<in> dom (disk (run sample_unmarshal [Tick io_stop_fails, Tick io_ok] buf2_existing))"
proof -
  have h: "recordCount buf2_existing \<noteq> 0"
    by (simp add: buf2_existing_def buf2_def)
  have e: "\<not> create_err io_stop_fails" "stop_err io_stop_fails"
    "\<not> create_err io_ok \<and> \<not> init_err io_ok \<and> \<not> stop_err io_ok \<and> (\<forall>i. \<not> write_err io_ok i)"
    by (simp_all add: io_stop_fails_def io_ok_def)
  have b: "aisRecords buf2_existing = [rec1, rec2]" "recordCount buf2_existing = 2"
    "disk buf2_existing = [getNewFilePath t0 \<mapsto> Finished [rec0]]" "now io_ok = t0"
    by (simp_all add: buf2_existing_def buf2_def io_ok_def)
  note A = partition_write_not_atomic [OF h, of io_stop_fails sample_unmarshal
      "[Tick io_stop_fails, Tick io_ok]"]
  note B = partition_write_not_atomic [OF h, of io_ok sample_unmarshal "[]"]
  from A e(1,2) have a1: "fst (saveToParquet io_stop_fails buf2_existing) \<noteq> Written"
    and a2: "disk (snd (saveToParquet io_stop_fails buf2_existing)) (getNewFilePath (now io_stop_fails)) =
       Some Unfinished"
    and a3: "aisRecords (snd (saveToParquet io_stop_fails buf2_existing)) = [rec1, rec2]"
    and a4: "recordCount (snd (saveToParquet io_stop_fails buf2_existing)) = 2"
    and a5: "getNewFilePath t0 \<in> dom (disk (run sample_unmarshal [Tick io_stop_fails, Tick io_ok] buf2_existing))"
    unfolding b by auto
  from B e(3) have b1: "saveToParquet io_ok buf2_existing =
     (Written, buf2_existing\<lparr>aisRecords := [], recordCount := 0,
        disk := [getNewFilePath t0 \<mapsto> Finished [rec1, rec2]]\<rparr>)"
    unfolding b by simp
  from h e a1 a2 a3 a4 a5 b1 show ?thesis by blast
qed

text \<open>
  C3 as claimed (the write fails when the target path already exists, and no failure
  leaves a file at the target path) fails. With a finished file already at the target
  path and no library error, the flush ends as written and the file is replaced by one
  with the two buffered records. With a finalization that fails, the flush fails and the
  created, unfinished file stays at the target path.
\<close>

theorem write_all_or_nothing_counterexample:
  "recordCount buf2_existing \<noteq> 0 \<and> aisRecords buf2_existing = [rec1, rec2] \<and>
   disk buf2_existing (getNewFilePath t0) = Some (Finished [rec0]) \<and>
   saveToParquet io_ok buf2_existing =
     (Written, buf2_existing\<lparr>aisRecords := [], recordCount := 0,
        disk := [getNewFilePath t0 \<mapsto> Finished [rec1, rec2]]\<rparr>) \<and>
   disk buf2 (getNewFilePath t0) = None \<and>
   saveToParquet io_stop_fails buf2 =
     (StopFailed, buf2\<lparr>disk := [getNewFilePath t0 \<mapsto> Unfinished]\<rparr>)"
  by (simp add: saveToParquet_def buf2_existing_def buf2_def io_stop_fails_def io_ok_def)

text \<open>
  C4. From an empty buffer, \<^const>\<open>MaxRecordsPerFile\<close> decodable messages in a row, with no
  timer tick in between and a flush that meets no error, start exactly one flush, in the
  call that handles the last message; it writes one file that holds exactly the records
  of these messages in arrival order, and the buffer is empty afterwards.
\<close>

theorem capacity_trigger:
  assumes len: "int (length ms) = MaxRecordsPerFile"
    and acc: "\<forall>(io, ts, m) \<in> set ms. user_id unmarshal m \<noteq> None"
    and empty: "aisRecords s = []" "recordCount s = 0"
    and ok: "\<not> create_err (fst (last ms))" "\<not> init_err (fst (last ms))"
      "\<not> stop_err (fst (last ms))" "\<forall>i. \<not> write_err (fst (last ms)) i"
  shows "fst (handle_all unmarshal ms s) = replicate (length ms - 1) None @ [Some Written] \<and>
     aisRecords (snd (handle_all unmarshal ms s)) = [] \<and>
     recordCount (snd (handle_all unmarshal ms s)) = 0 \<and>
     disk (snd (handle_all unmarshal ms s)) =
       (disk s)(getNewFilePath (now (fst (last ms))) \<mapsto> Finished (records_of unmarshal ms))"
proof -
  from len have ne: "ms \<noteq> []" by (auto simp: MaxRecordsPerFile_def)
  obtain io ts m where l: "last ms = (io, ts, m)" by (cases "last ms") auto
  define pre where "pre = butlast ms"
  have ms: "ms = pre @ [(io, ts, m)]"
    using ne l unfolding pre_def by (metis append_butlast_last_id)
  have plen: "int (length pre) + 1 = MaxRecordsPerFile"
    using len ms by simp
  have pacc: "\<forall>(io, ts, m) \<in> set pre. user_id unmarshal m \<noteq> None"
    using acc ms by auto
  obtain x where x: "user_id unmarshal m = Some x"
    using acc ms by auto
  have below: "recordCount s + int (length pre) < MaxRecordsPerFile"
    using plen empty by simp
  note P = handle_all_below_capacity [OF pacc below]
  let ?s1 = "snd (handle_all unmarshal pre s)"
  have full: "recordCount ?s1 + 1 = MaxRecordsPerFile"
    using P plen empty by simp
  have ok': "\<not> create_err io" "\<not> init_err io" "\<not> stop_err io" "\<forall>i. \<not> write_err io i"
    using ok l by simp_all
  note L = handle_at_capacity [OF x full ok', of ts]
  have r: "records_of unmarshal ms = records_of unmarshal pre
      @ [\<lparr>Timestamp = ts, MMSI = Sprintf_0f x, RawJSON = m\<rparr>]"
    by (simp add: ms records_of_def user_id_extract [OF x])
  have lm: "length ms - 1 = length pre" using ms by simp
  have io: "fst (last ms) = io" using l by simp
  show ?thesis
    unfolding lm io r
    by (subst (1 2 3 4) ms) (simp add: handle_all_append case_prod_unfold L P empty)
qed

theorem capacity_trigger_witness:
  "int (length (replicate 100000 (io_ok, ''2023-09-01T11:59:58Z'', msg1))) = MaxRecordsPerFile \<and>
   list_all (\<lambda>(io, ts, m). user_id sample_unmarshal m \<noteq> None)
     (replicate 100000 (io_ok, ''2023-09-01T11:59:58Z'', msg1)) \<and>
   aisRecords init = [] \<and> recordCount init = 0 \<and>
   \<not> create_err (fst (last (replicate 100000 (io_ok, ''2023-09-01T11:59:58Z'', msg1)))) \<and>
   \<not> init_err (fst (last (replicate 100000 (io_ok, ''2023-09-01T11:59:58Z'', msg1)))) \<and>
   \<not> stop_err (fst (last (replicate 100000 (io_ok, ''2023-09-01T11:59:58Z'', msg1)))) \<and>
   (\<forall>i. \<not> write_err (fst (last (replicate 100000 (io_ok, ''2023-09-01T11:59:58Z'', msg1)))) i) \<and>
   fst (handle_all sample_unmarshal (replicate 100000 (io_ok, ''2023-09-01T11:59:58Z'', msg1)) init)
     = replicate 99999 None @ [Some Written] \<and>
   aisRecords (snd (handle_all sample_unmarshal
       (replicate 100000 (io_ok, ''2023-09-01T11:59:58Z'', msg1)) init)) = [] \<and>
   recordCount (snd (handle_all sample_unmarshal
       (replicate 100000 (io_ok, ''2023-09-01T11:59:58Z'', msg1)) init)) = 0 \<and>
   disk (snd (handle_all sample_unmarshal
       (replicate 100000 (io_ok, ''2023-09-01T11:59:58Z'', msg1)) init))
     = [getNewFilePath t0 \<mapsto> Finished (replicate 100000
          \<lparr>Timestamp = ''2023-09-01T11:59:58Z'', MMSI = ''273450000'', RawJSON = msg1\<rparr>)]"
proof -
  let ?ms = "replicate 100000 (io_ok, ''2023-09-01T11:59:58Z'', msg1)"
  have l: "last ?ms = (io_ok, ''2023-09-01T11:59:58Z'', msg1)" by simp
  have h1: "int (length ?ms) = MaxRecordsPerFile" by (simp add: MaxRecordsPerFile_def)
  have h2: "\<forall>(io, ts, m) \<in> set ?ms. user_id sample_unmarshal m \<noteq> None" by (simp add: uid1)
  have h3: "aisRecords init = []" "recordCount init = 0" by (simp_all add: init_def)
  have h4: "\<not> create_err (fst (last ?ms))" "\<not> init_err (fst (last ?ms))"
      "\<not> stop_err (fst (last ?ms))" "\<forall>i. \<not> write_err (fst (last ?ms)) i"
    unfolding l by (simp_all add: io_ok_def)
  note m = mmsi1
  have r: "records_of sample_unmarshal ?ms = replicate 100000
          \<lparr>Timestamp = ''2023-09-01T11:59:58Z'', MMSI = ''273450000'', RawJSON = msg1\<rparr>"
    by (simp add: records_of_def sample_unmarshal_def m)
  have n: "now (fst (last ?ms)) = t0" unfolding l by (simp add: io_ok_def)
  have d: "disk init = Map.empty" by (simp add: init_def)
  have len: "length ?ms - 1 = 99999" by simp
  have h2': "list_all (\<lambda>(io, ts, m). user_id sample_unmarshal m \<noteq> None) ?ms"
    using h2 by (simp add: list_all_iff)
  from capacity_trigger [OF h1 h2 h3 h4] h1 h2' h3 h4
  show ?thesis unfolding r n d len by blast
qed

text \<open>
  C6. A message that fails to decode (the payload does not parse, or no identifier can
  be extracted) leaves the collector as it was: nothing is appended, the count is not
  incremented, no flush is started. Its payload is in no record of the buffer and in no
  file after any run of the collector from its initial state.
\<close>

theorem undecodable_message_dropped:
  assumes "unmarshal message = None \<or> (\<exists>data. unmarshal message = Some data \<and> extractMMSI data = [])"
  shows "handleAISMessage unmarshal io ts message s = (None, s) \<and>
     (\<forall>r \<in> set (aisRecords (run unmarshal evs init)). RawJSON r \<noteq> message) \<and>
     (\<forall>p rows. disk (run unmarshal evs init) p = Some (Finished rows) \<longrightarrow>
        (\<forall>r \<in> set rows. RawJSON r \<noteq> message))"
proof -
  from assms have nd: "\<not> decodes unmarshal message"
    by (auto simp: decodes_def)
  from assms have 1: "handleAISMessage unmarshal io ts message s = (None, s)"
    by (auto simp: handleAISMessage_def)
  have "only_decoded unmarshal init" by (simp add: only_decoded_def init_def)
  then have "only_decoded unmarshal (run unmarshal evs init)" by (rule only_decoded_run)
  with nd 1 show ?thesis unfolding only_decoded_def by blast
qed

theorem undecodable_message_dropped_witness:
  "(sample_unmarshal msg_static = None \<or>
     (\<exists>data. sample_unmarshal msg_static = Some data \<and> extractMMSI data = [])) \<and>
   handleAISMessage sample_unmarshal io_ok ''2023-09-01T11:59:58Z'' msg_static buf2 = (None, buf2) \<and>
   list_all (\<lambda>r. RawJSON r \<noteq> msg_static)
     (aisRecords (run sample_unmarshal
        [Message io_ok ''2023-09-01T11:59:58Z'' msg_static,
         Message io_ok ''2023-09-01T11:59:59Z'' msg1, Tick io_ok] init)) \<and>
   (case disk (run sample_unmarshal
        [Message io_ok ''2023-09-01T11:59:58Z'' msg_static,
         Message io_ok ''2023-09-01T11:59:59Z'' msg1, Tick io_ok] init) (getNewFilePath t0) of
      Some (Finished rows) \<Rightarrow> list_all (\<lambda>r. RawJSON r \<noteq> msg_static) rows
    | _ \<Rightarrow> True)"
proof -
  have h: "sample_unmarshal msg_static = None \<or>
     (\<exists>data. sample_unmarshal msg_static = Some data \<and> extractMMSI data = [])"
    by (simp add: sample_unmarshal_def msg_static_def msg1_def decoded_static_def extractMMSI_def)
  from undecodable_message_dropped [of sample_unmarshal msg_static io_ok "''2023-09-01T11:59:58Z''" buf2
      "[Message io_ok ''2023-09-01T11:59:58Z'' msg_static,
        Message io_ok ''2023-09-01T11:59:59Z'' msg1, Tick io_ok]", OF h] h
  show ?thesis
    by (auto simp: list_all_iff split: option.splits disk_file.splits)
qed

text \<open>
  C10. A message is appended to the buffer if and only if its payload parses and holds a
  JSON number at \<^verbatim>\<open>Message.PositionReport.UserID\<close>; the key of the record is that
  number printed without fractional digits. Every other message, also one that carries
  an identifier elsewhere, leaves the collector unchanged.
\<close>

theorem buffered_iff_position_report_user_id:
  "handleAISMessage unmarshal io ts message s =
     (case user_id unmarshal message of
        Some x \<Rightarrow> capacity_flush io (log_progress (append_locked
                    \<lparr>Timestamp = ts, MMSI = Sprintf_0f x, RawJSON = message\<rparr> s))
      | None \<Rightarrow> (None, s)) \<and>
   (snd (handleAISMessage unmarshal io ts message s) = s \<longleftrightarrow> user_id unmarshal message = None)"
proof (cases "user_id unmarshal message")
  case None
  then show ?thesis by (simp add: handleAISMessage_eq)
next
  case (Some x)
  let ?t = "log_progress (append_locked \<lparr>Timestamp = ts, MMSI = Sprintf_0f x, RawJSON = message\<rparr> s)"
  have "aisRecords ?t \<noteq> aisRecords s" "recordCount ?t = recordCount s + 1"
    by (simp_all add: append_locked_def)
  then have "snd (capacity_flush io ?t) \<noteq> s" by (rule capacity_flush_changes)
  with Some show ?thesis by (simp add: handleAISMessage_eq)
qed

theorem buffered_iff_position_report_user_id_witness:
  "user_id sample_unmarshal msg1 = Some (Float64 False 273450000 0) \<and>
   user_id sample_unmarshal msg_static = None \<and>
   handleAISMessage sample_unmarshal io_ok ''2023-09-01T12:00:00Z'' msg1 init =
     (None, init\<lparr>aisRecords :=
        [\<lparr>Timestamp = ''2023-09-01T12:00:00Z'', MMSI = ''273450000'', RawJSON = msg1\<rparr>],
        recordCount := 1\<rparr>) \<and>
   handleAISMessage sample_unmarshal io_ok ''2023-09-01T12:00:00Z'' msg_static init = (None, init)"
proof -
  have u: "user_id sample_unmarshal msg_static = None"
    by (simp add: user_id_def sample_unmarshal_def msg_static_def msg1_def decoded_static_def)
  have f: "Sprintf_0f (Float64 False 273450000 0) = ''273450000''"
    by (simp add: Sprintf_0f_def round_half_even_def decimal.simps digit_values)
  from buffered_iff_position_report_user_id [of sample_unmarshal io_ok "''2023-09-01T12:00:00Z''" msg1 init]
    buffered_iff_position_report_user_id [of sample_unmarshal io_ok "''2023-09-01T12:00:00Z''" msg_static init]
  show ?thesis
    by (simp add: uid1 u f capacity_flush_def log_progress_def append_locked_def init_def
          MaxRecordsPerFile_def go_div_def)
qed

section \<open>Helper lemmas for dates, names and the catalog\<close>

lemma of_char_digit: "k < 10 \<Longrightarrow> of_char (digit k) = (48 + k :: nat)"
  by (simp add: digit_def)

lemma digit_less: "j < 10 \<Longrightarrow> k < 10 \<Longrightarrow> digit j < digit k \<longleftrightarrow> j < k"
  by (simp add: less_char_def of_char_digit)

lemma digit_inj: "j < 10 \<Longrightarrow> k < 10 \<Longrightarrow> digit j = digit k \<longleftrightarrow> j = k"
  by (metis of_char_digit add_left_cancel)

lemma length_fixed [simp]: "length (fixed w x) = w"
  by (induction w arbitrary: x) auto

lemma fixed_zero: "fixed w 0 = replicate w (CHR ''0'')"
  by (induction w) (auto simp: digit_values replicate_append_same)

lemma appendInt_fixed: "x < 10 ^ w \<Longrightarrow> 0 < w \<Longrightarrow> appendInt x w = fixed w x"
proof (induction w arbitrary: x)
  case 0
  then show ?case by simp
next
  case (Suc w)
  show ?case
  proof (cases "x < 10")
    case True
    then have "decimal x = [digit x]" by (subst decimal.simps) simp
    with True show ?thesis
      by (simp add: appendInt_def fixed_zero)
  next
    case False
    then have d: "decimal x = decimal (x div 10) @ [digit (x mod 10)]"
      by (subst decimal.simps) simp
    from False Suc.prems have w: "0 < w" by (cases w) auto
    from Suc.prems have lt: "x div 10 < 10 ^ w" by (simp add: less_mult_imp_div_less)
    have IH: "appendInt (x div 10) w = fixed w (x div 10)"
      by (rule Suc.IH [OF lt w])
    have "length (decimal (x div 10)) \<le> w"
      using arg_cong [OF IH, of length] by (simp add: appendInt_def)
    then have "Suc w - length (decimal x) = w - length (decimal (x div 10))"
      by (simp add: d)
    then show ?thesis
      using IH by (simp add: appendInt_def d)
  qed
qed

lemma less_append_same_length:
  "length a = length b \<Longrightarrow> a @ x < b @ y \<longleftrightarrow> a < b \<or> (a = b \<and> x < y)" for a b :: "'a::linorder list"
  by (induction a b rule: list_induct2) auto

lemma fixed_less: "x < y \<Longrightarrow> y < 10 ^ w \<Longrightarrow> fixed w x < fixed w y"
proof (induction w arbitrary: x y)
  case 0
  then show ?case by simp
next
  case (Suc w)
  from Suc.prems have lt: "y div 10 < 10 ^ w" by (simp add: less_mult_imp_div_less)
  have "x div 10 \<le> y div 10"
    using Suc.prems(1) by (simp add: div_le_mono)
  moreover have "x mod 10 < y mod 10" if "x div 10 = y div 10"
    using Suc.prems(1) that mult_div_mod_eq [of 10 x] mult_div_mod_eq [of 10 y] by linarith
  ultimately have "x div 10 < y div 10 \<or> (x div 10 = y div 10 \<and> x mod 10 < y mod 10)"
    by (cases "x div 10 = y div 10") auto
  then show ?case
  proof
    assume "x div 10 < y div 10"
    then have "fixed w (x div 10) < fixed w (y div 10)" using lt by (rule Suc.IH)
    then show ?thesis by (simp add: less_append_same_length)
  next
    assume "x div 10 = y div 10 \<and> x mod 10 < y mod 10"
    then show ?thesis by (simp add: less_append_same_length digit_less)
  qed
qed

lemma fixed_inj: "x < 10 ^ w \<Longrightarrow> y < 10 ^ w \<Longrightarrow> fixed w x = fixed w y \<longleftrightarrow> x = y"
  by (metis fixed_less less_irrefl linorder_neqE_nat)

lemma fixed_less_iff: "x < 10 ^ w \<Longrightarrow> y < 10 ^ w \<Longrightarrow> fixed w x < fixed w y \<longleftrightarrow> x < y"
  by (metis fixed_less less_asym linorder_neqE_nat less_irrefl)

lemma Format_date_fixed:
  assumes "Year t < 10000" "Month t < 100" "Day t < 100"
  shows "Format_date t = fixed 4 (Year t) @ ''-'' @ fixed 2 (Month t) @ ''-'' @ fixed 2 (Day t)"
  using assms by (simp add: Format_date_def appendInt_fixed)

lemma Format_stamp_fixed:
  assumes "in_range t"
  shows "Format_stamp t = fixed 4 (Year t) @ ''-'' @ fixed 2 (Month t) @ ''-'' @ fixed 2 (Day t)
     @ ''_'' @ fixed 2 (Hour t) @ ''-'' @ fixed 2 (Minute t) @ ''-'' @ fixed 2 (Second t)"
  using assms by (simp add: Format_stamp_def Format_date_def appendInt_fixed in_range_def)

lemma fixed_sep_less:
  assumes "x < 10 ^ w" "y < 10 ^ w"
  shows "fixed w x @ c # r < fixed w y @ c # r' \<longleftrightarrow> x < y \<or> (x = y \<and> r < r')"
  using assms by (simp add: less_append_same_length fixed_less_iff fixed_inj)

lemma fixed_end_less:
  assumes "x < 10 ^ w" "y < 10 ^ w"
  shows "fixed w x @ r < fixed w y @ r' \<longleftrightarrow> x < y \<or> (x = y \<and> r < r')"
  using assms by (simp add: less_append_same_length fixed_less_iff fixed_inj)

lemma Format_stamp_less_iff:
  assumes "in_range t" "in_range u"
  shows "Format_stamp t < Format_stamp u \<longleftrightarrow> clock t < clock u"
proof -
  have b: "Year t < 10 ^ 4" "Year u < 10 ^ 4" "Month t < 10 ^ 2" "Month u < 10 ^ 2"
    "Day t < 10 ^ 2" "Day u < 10 ^ 2" "Hour t < 10 ^ 2" "Hour u < 10 ^ 2"
    "Minute t < 10 ^ 2" "Minute u < 10 ^ 2" "Second t < 10 ^ 2" "Second u < 10 ^ 2"
    using assms by (simp_all add: in_range_def)
  have last: "fixed 2 (Second t) < fixed 2 (Second u) \<longleftrightarrow> Second t < Second u"
    using b by (simp add: fixed_less_iff)
  show ?thesis
    unfolding Format_stamp_fixed [OF assms(1)] Format_stamp_fixed [OF assms(2)] clock_def
    by (simp only: append_Cons append_Nil fixed_sep_less b last Cons_less_Cons not_less_Nil) simp
qed

lemma Format_date_less_iff:
  assumes "Year t < 10000" "Month t < 100" "Day t < 100" "Year u < 10000" "Month u < 100" "Day u < 100"
  shows "Format_date t < Format_date u \<longleftrightarrow> [Year t, Month t, Day t] < [Year u, Month u, Day u]"
proof -
  have b: "Year t < 10 ^ 4" "Year u < 10 ^ 4" "Month t < 10 ^ 2" "Month u < 10 ^ 2"
    "Day t < 10 ^ 2" "Day u < 10 ^ 2"
    using assms by simp_all
  have last: "fixed 2 (Day t) < fixed 2 (Day u) \<longleftrightarrow> Day t < Day u"
    using b by (simp add: fixed_less_iff)
  show ?thesis
    unfolding Format_date_fixed [OF assms(1,2,3)] Format_date_fixed [OF assms(4,5,6)]
    by (simp only: append_Cons append_Nil fixed_sep_less b last Cons_less_Cons not_less_Nil) simp
qed

lemma length_Format_date: "Year t < 10000 \<Longrightarrow> Month t < 100 \<Longrightarrow> Day t < 100 \<Longrightarrow> length (Format_date t) = 10"
  by (simp add: Format_date_fixed)

lemma Format_stamp_inj:
  assumes "in_range t" "in_range u" "Format_stamp t = Format_stamp u"
  shows "clock t = clock u"
proof -
  have "\<not> clock t < clock u" "\<not> clock u < clock t"
    using assms Format_stamp_less_iff [of t u] Format_stamp_less_iff [of u t] by auto
  then show ?thesis by simp
qed

lemma isDigit_iff: "isDigit c \<longleftrightarrow> 48 \<le> (of_char c :: nat) \<and> (of_char c :: nat) \<le> 57"
  by (simp add: isDigit_def less_eq_char_def)

lemma isDigit_digit: "k < 10 \<Longrightarrow> isDigit (digit k)"
  by (simp add: isDigit_iff of_char_digit)

lemma decimal_digits: "c \<in> set (decimal n) \<Longrightarrow> isDigit c"
proof (induction n rule: decimal.induct)
  case (1 n)
  show ?case
  proof (cases "n < 10")
    case True
    with "1.prems" show ?thesis
      by (subst (asm) decimal.simps) (simp add: isDigit_digit)
  next
    case False
    with "1.prems" have "c \<in> set (decimal (n div 10)) \<or> c = digit (n mod 10)"
      by (subst (asm) decimal.simps) auto
    with False "1.IH" show ?thesis
      by (auto simp: isDigit_digit)
  qed
qed

lemma appendInt_digits: "c \<in> set (appendInt x w) \<Longrightarrow> isDigit c"
proof -
  assume "c \<in> set (appendInt x w)"
  then have "c = CHR ''0'' \<or> c \<in> set (decimal x)"
    by (auto simp: appendInt_def)
  then show ?thesis
    by (auto simp: decimal_digits) (simp add: isDigit_iff)
qed

lemma Format_date_chars: "c \<in> set (Format_date d) \<Longrightarrow> isDigit c \<or> c = CHR ''-''"
  by (auto simp: Format_date_def dest: appendInt_digits)

lemma Format_date_no_slash: "CHR ''/'' \<notin> set (Format_date d)"
  using Format_date_chars [of "CHR ''/''" d] by (auto simp: isDigit_iff)

lemma Format_date_no_star: "CHR ''*'' \<notin> set (Format_date d)"
  using Format_date_chars [of "CHR ''*''" d] by (auto simp: isDigit_iff)

lemma Split_dir_file:
  assumes "CHR ''/'' \<notin> set file"
  shows "Split (dir @ CHR ''/'' # file) = (dir @ [CHR ''/''], file)"
proof -
  have "takeWhile (\<lambda>c. c \<noteq> CHR ''/'') (rev file @ CHR ''/'' # rev dir) = rev file"
    using assms by (subst takeWhile_tail) (auto simp: takeWhile_eq_all_conv)
  then show ?thesis
    by (simp add: Split_def Let_def)
qed

lemma Match_literal: "CHR ''*'' \<notin> set lit \<Longrightarrow> Match lit name \<longleftrightarrow> name = lit"
  by (induction lit name rule: Match.induct) auto

lemma Match_star:
  "CHR ''*'' \<notin> set suf \<Longrightarrow>
   Match (CHR ''*'' # suf) name \<longleftrightarrow> (\<exists>mid. name = mid @ suf \<and> CHR ''/'' \<notin> set mid)"
proof (induction name)
  case Nil
  then show ?case by (auto simp: Match_literal)
next
  case (Cons c cs)
  show ?case
  proof
    assume "Match (CHR ''*'' # suf) (c # cs)"
    then have "Match suf (c # cs) \<or> (c \<noteq> CHR ''/'' \<and> Match (CHR ''*'' # suf) cs)" by simp
    then show "\<exists>mid. c # cs = mid @ suf \<and> CHR ''/'' \<notin> set mid"
    proof
      assume "Match suf (c # cs)"
      then have "c # cs = [] @ suf" using Cons.prems by (simp add: Match_literal)
      then show ?thesis by (intro exI [of _ "[]"]) simp
    next
      assume a: "c \<noteq> CHR ''/'' \<and> Match (CHR ''*'' # suf) cs"
      then obtain mid where "cs = mid @ suf" "CHR ''/'' \<notin> set mid"
        using Cons.IH [OF Cons.prems] by auto
      with a show ?thesis by (intro exI [of _ "c # mid"]) auto
    qed
  next
    assume "\<exists>mid. c # cs = mid @ suf \<and> CHR ''/'' \<notin> set mid"
    then obtain mid where m: "c # cs = mid @ suf" "CHR ''/'' \<notin> set mid" by auto
    show "Match (CHR ''*'' # suf) (c # cs)"
    proof (cases mid)
      case Nil
      with m have "Match suf (c # cs)" using Cons.prems by (simp add: Match_literal)
      then show ?thesis by simp
    next
      case (Cons a mid')
      with m have "c = a" "cs = mid' @ suf" "CHR ''/'' \<notin> set mid'" "c \<noteq> CHR ''/''" by auto
      then have "Match (CHR ''*'' # suf) cs"
        using Cons.IH [OF Cons.prems] by auto
      with \<open>c \<noteq> CHR ''/''\<close> show ?thesis by simp
    qed
  qed
qed

lemma Match_prefix:
  "CHR ''*'' \<notin> set pre \<Longrightarrow> Match (pre @ rest) name \<longleftrightarrow> (\<exists>tl. name = pre @ tl \<and> Match rest tl)"
proof (induction pre arbitrary: name)
  case Nil
  then show ?case by simp
next
  case (Cons p pre)
  then show ?case by (cases name) auto
qed

lemma Match_one_star:
  assumes "CHR ''*'' \<notin> set pre" "CHR ''*'' \<notin> set suf"
  shows "Match (pre @ CHR ''*'' # suf) name \<longleftrightarrow>
     (\<exists>mid. name = pre @ mid @ suf \<and> CHR ''/'' \<notin> set mid)"
  using assms by (auto simp: Match_prefix Match_star)

lemma date_prefixed_iff:
  "date_prefixed d name \<longleftrightarrow> (\<exists>mid. name = (Format_date d @ ''_'') @ mid @ ''.parquet'')"
proof
  assume a: "date_prefixed d name"
  let ?p = "Format_date d @ ''_''"
  let ?rest = "drop (length ?p) name"
  from a have 1: "take (length ?p) name = ?p" and 2: "length ?p + 8 \<le> length name"
    and 3: "drop (length name - 8) name = ''.parquet''"
    by (simp_all add: date_prefixed_def Let_def)
  have len: "length ?rest - 8 + length ?p = length name - 8"
    using 2 by simp
  have "drop (length ?rest - 8) ?rest = drop (length name - 8) name"
    unfolding drop_drop len ..
  then have r: "?rest = take (length ?rest - 8) ?rest @ ''.parquet''"
    using 3 by (metis append_take_drop_id)
  have "name = take (length ?p) name @ ?rest" by simp
  then have "name = ?p @ take (length ?rest - 8) ?rest @ ''.parquet''"
    using 1 r by metis
  then show "\<exists>mid. name = ?p @ mid @ ''.parquet''" by blast
next
  assume "\<exists>mid. name = (Format_date d @ ''_'') @ mid @ ''.parquet''"
  then obtain mid where "name = (Format_date d @ ''_'') @ mid @ ''.parquet''" by blast
  then show "date_prefixed d name"
    by (simp add: date_prefixed_def Let_def)
qed

lemma Match_date_prefixed:
  assumes "CHR ''/'' \<notin> set name"
  shows "Match (Format_date d @ ''_*.parquet'') name \<longleftrightarrow> date_prefixed d name"
proof -
  have p: "Format_date d @ ''_*.parquet'' = (Format_date d @ ''_'') @ CHR ''*'' # ''.parquet''"
    by simp
  have "Match ((Format_date d @ ''_'') @ CHR ''*'' # ''.parquet'') name \<longleftrightarrow>
      (\<exists>mid. name = (Format_date d @ ''_'') @ mid @ ''.parquet'' \<and> CHR ''/'' \<notin> set mid)"
    by (rule Match_one_star) (simp_all add: Format_date_no_star)
  also have "\<dots> \<longleftrightarrow> (\<exists>mid. name = (Format_date d @ ''_'') @ mid @ ''.parquet'')"
    using assms by auto
  finally show ?thesis
    unfolding p date_prefixed_iff .
qed

lemma Glob_partitions_on:
  assumes "\<forall>n \<in> set (readdir ''ais_data''). CHR ''/'' \<notin> set n"
  shows "Glob readdir (''ais_data/'' @ Format_date d @ ''_*.parquet'') = partitions_on readdir d"
proof -
  have "CHR ''/'' \<notin> set (Format_date d @ ''_*.parquet'')"
    by (simp add: Format_date_no_slash)
  then have s: "Split (''ais_data'' @ CHR ''/'' # (Format_date d @ ''_*.parquet''))
      = (''ais_data'' @ [CHR ''/''], Format_date d @ ''_*.parquet'')"
    by (rule Split_dir_file)
  have f: "filter (Match (Format_date d @ ''_*.parquet'')) (readdir ''ais_data'')
      = filter (date_prefixed d) (readdir ''ais_data'')"
    using assms by (intro filter_cong) (auto simp: Match_date_prefixed)
  have "Glob readdir (''ais_data'' @ CHR ''/'' # (Format_date d @ ''_*.parquet''))
      = partitions_on readdir d"
    unfolding Glob_def s by (simp add: f partitions_on_def filter_sort)
  then show ?thesis by simp
qed

lemma getFilePaths_loop_eq:
  "getFilePaths_loop readdir d fin (files, globbed) =
     (files @ concat (map (\<lambda>d. Glob readdir (''ais_data/'' @ Format_date d @ ''_*.parquet''))
                       (days_between d fin)),
      globbed @ map (\<lambda>d. ''ais_data/'' @ Format_date d @ ''_*.parquet'') (days_between d fin))"
proof (induction d fin arbitrary: files globbed rule: days_between.induct)
  case (1 d fin)
  show ?case
  proof (cases "After d fin")
    case True
    then show ?thesis
      by (subst getFilePaths_loop.simps) (simp add: days_between.simps [of d fin])
  next
    case False
    then show ?thesis
      by (subst getFilePaths_loop.simps)
         (simp add: "1.IH" Let_def days_between.simps [of d fin])
  qed
qed

lemma daysIn_bounds: "1 \<le> daysIn m y" "daysIn m y \<le> 31"
  by (simp_all add: daysIn_def)

lemma is_date_AddDate_day: "is_date t \<Longrightarrow> is_date (AddDate_day t)"
  using daysIn_bounds(1) [of "Month t + 1" "Year t"] daysIn_bounds(1) [of 1 "Year t + 1"]
  by (simp add: is_date_def AddDate_day_def)

lemma After_AddDate_day: "After (AddDate_day t) t"
  by (simp add: After_def clock_def AddDate_day_def)

lemma After_dates:
  "is_date t \<Longrightarrow> is_date d \<Longrightarrow>
   After d t \<longleftrightarrow> Year t < Year d \<or> (Year t = Year d \<and> (Month t < Month d \<or> (Month t = Month d \<and> Day t < Day d)))"
  by (simp add: After_def clock_def is_date_def)

lemma AddDate_day_least:
  assumes "is_date t" "is_date d" "After d t"
  shows "\<not> After (AddDate_day t) d"
proof -
  note lt = assms(3) [unfolded After_dates [OF assms(1,2)]]
  have t': "is_date (AddDate_day t)" using assms(1) by (rule is_date_AddDate_day)
  have dd: "Day d \<le> daysIn (Month d) (Year d)" "1 \<le> Day d" "1 \<le> Month d" "Month d \<le> 12"
    using assms(2) by (simp_all add: is_date_def)
  have tt: "Month t \<le> 12" using assms(1) by (simp add: is_date_def)
  consider (a) "Day t < daysIn (Month t) (Year t)"
    | (b) "\<not> Day t < daysIn (Month t) (Year t)" "Month t < 12"
    | (c) "\<not> Day t < daysIn (Month t) (Year t)" "\<not> Month t < 12" by blast
  then show ?thesis
  proof cases
    case a
    then have "Year (AddDate_day t) = Year t" "Month (AddDate_day t) = Month t"
      "Day (AddDate_day t) = Day t + 1" by (simp_all add: AddDate_day_def)
    then show ?thesis
      unfolding After_dates [OF assms(2) t'] using lt by linarith
  next
    case b
    then have e: "Year (AddDate_day t) = Year t" "Month (AddDate_day t) = Month t + 1"
      "Day (AddDate_day t) = 1" by (simp_all add: AddDate_day_def)
    have "\<not> (Year t = Year d \<and> Month t = Month d \<and> Day t < Day d)"
      using b(1) dd(1) by auto
    then show ?thesis
      unfolding After_dates [OF assms(2) t'] e using lt dd(2) by linarith
  next
    case c
    then have e: "Year (AddDate_day t) = Year t + 1" "Month (AddDate_day t) = 1"
      "Day (AddDate_day t) = 1" by (simp_all add: AddDate_day_def)
    from c(2) tt have m: "Month t = 12" by simp
    have "\<not> (Year t = Year d \<and> Month t = Month d \<and> Day t < Day d)"
      using c(1) dd(1) by auto
    moreover have "\<not> (Year t = Year d \<and> Month t < Month d)"
      using m dd(4) by auto
    ultimately show ?thesis
      unfolding After_dates [OF assms(2) t'] e using lt dd(2,3) by linarith
  qed
qed

lemma After_trans: "After a b \<Longrightarrow> After b c \<Longrightarrow> After a c"
  by (auto simp: After_def)

lemma not_After_trans: "\<not> After a b \<Longrightarrow> \<not> After b c \<Longrightarrow> \<not> After a c"
  by (auto simp: After_def)

lemma days_between_sound:
  "is_date s \<Longrightarrow> d \<in> set (days_between s e) \<Longrightarrow> is_date d \<and> \<not> After s d \<and> \<not> After d e"
proof (induction s e rule: days_between.induct)
  case (1 s e)
  show ?case
  proof (cases "After s e")
    case True
    with "1.prems" show ?thesis by (simp add: days_between.simps [of s e])
  next
    case False
    with "1.prems" have "d = s \<or> d \<in> set (days_between (AddDate_day s) e)"
      by (simp add: days_between.simps [of s e])
    then show ?thesis
    proof
      assume "d = s"
      with False "1.prems" show ?thesis by (simp add: After_def)
    next
      assume "d \<in> set (days_between (AddDate_day s) e)"
      then have "is_date d \<and> \<not> After (AddDate_day s) d \<and> \<not> After d e"
        using "1.IH" [OF False is_date_AddDate_day [OF "1.prems"(1)]] by simp
      moreover have "\<not> After s (AddDate_day s)"
        using After_AddDate_day [of s] by (auto simp: After_def)
      ultimately show ?thesis
        using not_After_trans by blast
    qed
  qed
qed

lemma days_between_complete:
  "is_date s \<Longrightarrow> is_date d \<Longrightarrow> \<not> After s d \<Longrightarrow> \<not> After d e \<Longrightarrow> d \<in> set (days_between s e)"
proof (induction s e rule: days_between.induct)
  case (1 s e)
  from "1.prems"(3,4) have ne: "\<not> After s e" using not_After_trans by blast
  show ?case
  proof (cases "d = s")
    case True
    with ne show ?thesis by (simp add: days_between.simps [of s e])
  next
    case False
    have "clock d \<noteq> clock s"
      using False "1.prems"(1,2) by (auto simp: clock_def is_date_def)
    with "1.prems"(3) have "After d s" by (auto simp: After_def)
    then have "\<not> After (AddDate_day s) d"
      using "1.prems"(1,2) AddDate_day_least by blast
    then have "d \<in> set (days_between (AddDate_day s) e)"
      using "1.IH" [OF ne is_date_AddDate_day [OF "1.prems"(1)] "1.prems"(2) _ "1.prems"(4)] by simp
    with ne show ?thesis by (simp add: days_between.simps [of s e])
  qed
qed

lemma days_between_ascending:
  "is_date s \<Longrightarrow> sorted_wrt (\<lambda>a b. After b a) (days_between s e)"
proof (induction s e rule: days_between.induct)
  case (1 s e)
  show ?case
  proof (cases "After s e")
    case True
    then show ?thesis by (simp add: days_between.simps [of s e])
  next
    case False
    have "After d s" if "d \<in> set (days_between (AddDate_day s) e)" for d
    proof -
      from that have "\<not> After (AddDate_day s) d"
        using days_between_sound [OF is_date_AddDate_day [OF "1.prems"]] by blast
      with After_AddDate_day [of s] show ?thesis by (auto simp: After_def)
    qed
    with False "1.IH" [OF False is_date_AddDate_day [OF "1.prems"]] show ?thesis
      by (simp add: days_between.simps [of s e])
  qed
qed

lemma digit_value_le: "isDigit c \<Longrightarrow> digit_value c \<le> 9"
  unfolding isDigit_iff digit_value_def by linarith

lemma Parse_Some:
  assumes "Parse v = Some t"
  shows "is_date t \<and> Year t \<le> 9999"
proof -
  from assms obtain y1 y2 y3 y4 s1 m1 m2 s2 d1 d2 where
    v: "v = [y1, y2, y3, y4, s1, m1, m2, s2, d1, d2]"
    by (auto simp: Parse_def split: list.splits)
  from assms have dg: "isDigit y1" "isDigit y2" "isDigit y3" "isDigit y4"
    and t: "t = \<lparr>Year = digit_value y1 * 1000 + digit_value y2 * 100 + digit_value y3 * 10 + digit_value y4,
           Month = digit_value m1 * 10 + digit_value m2, Day = digit_value d1 * 10 + digit_value d2,
           Hour = 0, Minute = 0, Second = 0\<rparr>"
    and r: "\<not> (digit_value m1 * 10 + digit_value m2 < 1 \<or> 12 < digit_value m1 * 10 + digit_value m2)"
       "\<not> (digit_value d1 * 10 + digit_value d2 < 1 \<or>
           daysIn (digit_value m1 * 10 + digit_value m2)
             (digit_value y1 * 1000 + digit_value y2 * 100 + digit_value y3 * 10 + digit_value y4)
             < digit_value d1 * 10 + digit_value d2)"
    unfolding v Parse_def by (simp_all add: Let_def split: if_splits)
  have "Year t \<le> 9999"
    using dg [THEN digit_value_le] by (simp add: t)
  moreover have "is_date t"
    using r unfolding t is_date_def by (simp add: not_less) linarith
  ultimately show ?thesis by simp
qed

lemma le_append_same: "p @ a \<le> p @ b \<longleftrightarrow> a \<le> b" for a b :: "'a::linorder list"
  by (simp add: le_less less_append_same_length)

lemma less_append_same: "p @ a < p @ b \<longleftrightarrow> a < b" for a b :: "'a::linorder list"
  by (simp add: less_append_same_length)

lemma sorted_partitions_on: "sorted (partitions_on readdir d)"
  by (simp add: partitions_on_def sorted_map)

lemma distinct_partitions_on:
  "distinct (readdir ''ais_data'') \<Longrightarrow> distinct (partitions_on readdir d)"
  by (simp add: partitions_on_def distinct_map inj_on_def)

lemma is_date_bounds: "is_date t \<Longrightarrow> Month t < 100 \<and> Day t < 100"
  using daysIn_bounds(2) [of "Month t" "Year t"] by (simp add: is_date_def)

lemma partitions_on_less:
  assumes "is_date d1" "is_date d2" "Year d2 \<le> 9999" "After d2 d1"
    and "x \<in> set (partitions_on readdir d1)" "y \<in> set (partitions_on readdir d2)"
  shows "x < y"
proof -
  from assms(5) obtain n1 where x: "x = ''ais_data/'' @ n1" and "date_prefixed d1 n1"
    by (auto simp: partitions_on_def)
  then obtain r1 where n1: "n1 = Format_date d1 @ r1"
    by (auto simp: date_prefixed_iff)
  from assms(6) obtain n2 where y: "y = ''ais_data/'' @ n2" and "date_prefixed d2 n2"
    by (auto simp: partitions_on_def)
  then obtain r2 where n2: "n2 = Format_date d2 @ r2"
    by (auto simp: date_prefixed_iff)
  note lt = assms(4) [unfolded After_dates [OF assms(1,2)]]
  from lt assms(3) have y1: "Year d1 < 10000" "Year d2 < 10000" by auto
  note b1 = is_date_bounds [OF assms(1)] and b2 = is_date_bounds [OF assms(2)]
  have "Format_date d1 < Format_date d2"
    using lt y1 b1 b2 by (subst Format_date_less_iff) auto
  moreover have "length (Format_date d1) = length (Format_date d2)"
    using y1 b1 b2 by (simp add: length_Format_date)
  ultimately have "n1 < n2"
    unfolding n1 n2 by (simp add: less_append_same_length)
  then show ?thesis
    unfolding x y by (simp only: less_append_same)
qed

lemma sorted_distinct_concat:
  fixes xss :: "'a::linorder list list"
  assumes "\<forall>xs \<in> set xss. sorted xs \<and> distinct xs"
    and "sorted_wrt (\<lambda>a b. \<forall>x \<in> set a. \<forall>y \<in> set b. x < y) xss"
  shows "sorted (concat xss) \<and> distinct (concat xss)"
  using assms
proof (induction xss)
  case Nil
  show ?case by simp
next
  case (Cons xs xss)
  then have IH: "sorted (concat xss)" "distinct (concat xss)" by auto
  from Cons.prems have 1: "sorted xs" "distinct xs" by auto
  from Cons.prems(2) have 2: "\<forall>x \<in> set xs. \<forall>y \<in> set (concat xss). x < y" by auto
  then have "\<forall>x \<in> set xs. \<forall>y \<in> set (concat xss). x \<le> y" by (meson less_imp_le)
  moreover from 2 have "set xs \<inter> set (concat xss) = {}" by (meson disjoint_iff less_irrefl)
  ultimately show ?case
    using IH 1 by (simp add: sorted_append)
qed

lemma fixed_2: "fixed 2 x = [digit (x div 10 mod 10), digit (x mod 10)]"
proof -
  have "fixed 2 x = fixed (Suc (Suc 0)) x" by (simp only: numeral_2_eq_2)
  then show ?thesis by simp
qed

lemma fixed_4:
  "fixed 4 x = [digit (x div 10 div 10 div 10 mod 10), digit (x div 10 div 10 mod 10),
                digit (x div 10 mod 10), digit (x mod 10)]"
proof -
  have "(4::nat) = Suc (Suc (Suc (Suc 0)))" by simp
  then have "fixed 4 x = fixed (Suc (Suc (Suc (Suc 0)))) x" by (simp only:)
  then show ?thesis by simp
qed

lemma stamp_form_getNewFilePath: "in_range t \<Longrightarrow> stamp_form (getNewFilePath t)"
  by (simp add: getNewFilePath_def Format_stamp_fixed fixed_2 fixed_4 stamp_form_def isDigit_digit)

lemma date_prefixed_getNewFilePath: "date_prefixed t (drop 9 (getNewFilePath t))"
  unfolding date_prefixed_iff
  by (rule exI [of _ "appendInt (Hour t) 2 @ ''-'' @ appendInt (Minute t) 2 @ ''-'' @ appendInt (Second t) 2"])
     (simp add: getNewFilePath_def Format_stamp_def)

lemma getNewFilePath_less_iff:
  assumes "in_range t" "in_range u"
  shows "getNewFilePath t < getNewFilePath u \<longleftrightarrow> clock t < clock u"
proof -
  have "getNewFilePath t < getNewFilePath u \<longleftrightarrow> Format_stamp t @ ''.parquet'' < Format_stamp u @ ''.parquet''"
    unfolding getNewFilePath_def by (simp only: less_append_same)
  also have "\<dots> \<longleftrightarrow> Format_stamp t < Format_stamp u"
    using assms by (subst less_append_same_length) (simp_all add: Format_stamp_fixed)
  finally show ?thesis
    using assms by (simp add: Format_stamp_less_iff)
qed

lemma Parse_day1: "Parse ''2023-09-01'' = Some day1"
  by (simp add: Parse_def isDigit_iff digit_value_def daysIn_def day1_def)

lemma Parse_day3: "Parse ''2023-09-03'' = Some day3"
  by (simp add: Parse_def isDigit_iff digit_value_def daysIn_def day3_def)

lemma getFilePaths_run_eq:
  assumes "Parse from = Some s" "Parse to = Some e"
  shows "getFilePaths_run readdir from to =
     (concat (map (\<lambda>d. Glob readdir (''ais_data/'' @ Format_date d @ ''_*.parquet'')) (days_between s e)),
      map (\<lambda>d. ''ais_data/'' @ Format_date d @ ''_*.parquet'') (days_between s e))"
  using assms by (simp add: getFilePaths_run_def Parse_ignoring_error_def getFilePaths_loop_eq)

lemma digit_Suc_0: "digit (Suc 0) = CHR ''1''"
  by code_simp

lemma days_sample: "days_between day1 day3 = [day1, day2, day3]"
  by (simp add: days_between.simps After_def clock_def AddDate_day_def daysIn_def
      day1_def day2_def day3_def)

lemma not_After_sample: "\<not> After day1 day3"
  by (simp add: After_def clock_def day1_def day3_def)

lemma Format_date_sample:
  "Format_date day1 = ''2023-09-01''" "Format_date day2 = ''2023-09-02''"
  "Format_date day3 = ''2023-09-03''"
  by (simp_all add: Format_date_def appendInt_def decimal.simps digit_values digit_Suc_0
      day1_def day2_def day3_def)

lemma partitions_sample:
  "partitions_on readdir_sample day1 =
     [''ais_data/2023-09-01_10-00-00.parquet'', ''ais_data/2023-09-01_12-00-00.parquet'']"
  "partitions_on readdir_sample day2 = [''ais_data/2023-09-02_13-00-00.parquet'']"
  "partitions_on readdir_sample day3 = []"
  by (simp_all add: partitions_on_def readdir_sample_def date_prefixed_def Format_date_sample)

section \<open>Properties of the file name and the catalog\<close>

text \<open>
  Names and readings. Of two readings with four-digit years, the earlier one gives the
  lexicographically smaller or equal name (a strictly earlier one a strictly smaller
  name); every name has the form \<^verbatim>\<open>ais_data/YYYY-MM-DD_HH-MM-SS.parquet\<close>, and its
  date prefix is the calendar date of the reading.
\<close>

lemma getNewFilePath_monotone_in_readings:
  assumes "in_range t1" "in_range t2" "clock t1 \<le> clock t2"
  shows "getNewFilePath t1 \<le> getNewFilePath t2 \<and>
     (clock t1 < clock t2 \<longrightarrow> getNewFilePath t1 < getNewFilePath t2) \<and>
     stamp_form (getNewFilePath t1) \<and>
     date_prefixed t1 (drop 9 (getNewFilePath t1))"
proof -
  have "\<not> getNewFilePath t2 < getNewFilePath t1"
    using assms by (simp add: getNewFilePath_less_iff [OF assms(2,1)])
  then have "getNewFilePath t1 \<le> getNewFilePath t2" by simp
  then show ?thesis
    using assms
    by (simp add: getNewFilePath_less_iff stamp_form_getNewFilePath date_prefixed_getNewFilePath)
qed

text \<open>The absolute time of the Unix epoch is the constant \<^verbatim>\<open>unixToInternal\<close> of package time.\<close>

lemma instant_unix_epoch: "instant unix_epoch 0 = 62135596800"
  by (simp add: instant_def abs_days_def unix_epoch_def)

text \<open>
  C8 fails on the code: the name is not monotone in the instant of its creation.
  \<^verbatim>\<open>getNewFilePath\<close> formats \<^verbatim>\<open>time.Now()\<close> as read in the location of the process
  (the record timestamp of \<^verbatim>\<open>handleAISMessage\<close> and the default date of
  \<^verbatim>\<open>middlewareDateRange\<close> convert to UTC first; this call does not). Where the offset
  of the location changes, a later instant can have an earlier reading: in New York on
  5 November 2023, 01:30:00 EDT (05:30:00 UTC) is 2400 seconds before 01:10:00 EST
  (06:10:00 UTC), and the file of the later instant gets the smaller name.
\<close>

theorem getNewFilePath_fall_back:
  "instant edt_0130 (- 14400) < instant est_0110 (- 18000) \<and>
   instant est_0110 (- 18000) - instant edt_0130 (- 14400) = 2400 \<and>
   getNewFilePath edt_0130 = ''ais_data/2023-11-05_01-30-00.parquet'' \<and>
   getNewFilePath est_0110 = ''ais_data/2023-11-05_01-10-00.parquet'' \<and>
   getNewFilePath est_0110 < getNewFilePath edt_0130 \<and>
   \<not> getNewFilePath edt_0130 \<le> getNewFilePath est_0110"
proof -
  have i: "instant est_0110 (- 18000) - instant edt_0130 (- 14400) = 2400"
    by (simp add: instant_def abs_days_def edt_0130_def est_0110_def)
  have n: "getNewFilePath edt_0130 = ''ais_data/2023-11-05_01-30-00.parquet''"
    "getNewFilePath est_0110 = ''ais_data/2023-11-05_01-10-00.parquet''"
    by (simp_all add: getNewFilePath_def Format_stamp_def Format_date_def appendInt_def
        decimal.simps digit_values digit_Suc_0 edt_0130_def est_0110_def)
  have l: "getNewFilePath est_0110 < getNewFilePath edt_0130"
    unfolding n by simp
  from i l n show ?thesis by simp
qed

text \<open>
  C1, as the code has it. For a request whose dates parse and whose \<open>from\<close> is after
  its \<open>to\<close>, no pattern is handed to \<^verbatim>\<open>filepath.Glob\<close> (the directory is not
  listed), and the request is aborted with status 404 and the message of the "no data"
  condition.
\<close>

theorem reversed_range_is_no_data:
  assumes "Parse (DefaultQuery qfrom today) = Some s"
    and "Parse (DefaultQuery qto (DefaultQuery qfrom today)) = Some e"
    and "After s e"
  shows "middlewareDateRange readdir today qfrom qto =
     (Abort 404 ''No data available for the requested period'', [])"
proof -
  have "days_between s e = []" using assms(3) by (simp add: days_between.simps)
  then show ?thesis
    using assms(1,2) by (simp add: middlewareDateRange_def Let_def getFilePaths_run_eq)
qed

theorem reversed_range_is_no_data_witness:
  "Parse (DefaultQuery (Some ''2023-09-03'') ''2023-09-05'') = Some day3 \<and>
   Parse (DefaultQuery (Some ''2023-09-01'') (DefaultQuery (Some ''2023-09-03'') ''2023-09-05'')) = Some day1 \<and>
   After day3 day1 \<and>
   middlewareDateRange readdir_sample ''2023-09-05'' (Some ''2023-09-03'') (Some ''2023-09-01'') =
     (Abort 404 ''No data available for the requested period'', [])"
proof -
  have 1: "Parse (DefaultQuery (Some ''2023-09-03'') ''2023-09-05'') = Some day3"
    by (simp add: DefaultQuery_def Parse_day3)
  have 2: "Parse (DefaultQuery (Some ''2023-09-01'') (DefaultQuery (Some ''2023-09-03'') ''2023-09-05'')) = Some day1"
    by (simp add: DefaultQuery_def Parse_day1)
  have 3: "After day3 day1"
    by (simp add: After_def clock_def day1_def day3_def)
  from reversed_range_is_no_data [OF 1 2 3, of readdir_sample] 1 2 3
  show ?thesis by blast
qed

text \<open>
  C1 as claimed (the rejection is a validation error, distinct from "no data") fails: the
  request from 2023-09-03 to 2023-09-01 gets the very response of a well-ordered range
  without partitions, status 404 with "No data available for the requested period",
  while a validation error has status 400.
\<close>

theorem reversed_range_validation_counterexample:
  "middlewareDateRange readdir_sample ''2023-09-05'' (Some ''2023-09-03'') (Some ''2023-09-01'') =
     (Abort 404 ''No data available for the requested period'', []) \<and>
   fst (middlewareDateRange readdir_sample ''2023-09-05'' (Some ''2023-09-03'') (Some ''2023-09-03'')) =
     Abort 404 ''No data available for the requested period'' \<and>
   fst (middlewareDateRange readdir_sample ''2023-09-05'' (Some ''2023-09-01'') (Some ''2023-9-3'')) =
     Abort 400 ''Invalid 'to' date format (expected YYYY-MM-DD)''"
proof -
  have a: "After day3 day1" "\<not> After day3 day3" "After (AddDate_day day3) day3"
    by (simp_all add: After_def clock_def day1_def day3_def AddDate_day_def daysIn_def)
  have b: "Parse ''2023-9-3'' = None"
    by (simp add: Parse_def)
  have c: "days_between day3 day1 = []" "days_between day3 day3 = [day3]"
    using a by (simp_all add: days_between.simps)
  have g: "Glob readdir_sample (''ais_data/'' @ Format_date day3 @ ''_*.parquet'') = []"
    using Glob_partitions_on [of readdir_sample day3]
    by (simp add: partitions_sample readdir_sample_def)
  show ?thesis
    using g by (simp add: middlewareDateRange_def DefaultQuery_def Let_def Parse_day1 Parse_day3 b
        getFilePaths_run_eq c)
qed

text \<open>
  C5. For parsed dates \<open>from \<le> to\<close>, over a directory listing of distinct names,
  \<^verbatim>\<open>getFilePaths\<close> returns the concatenation, over the calendar days from \<open>from\<close> to
  \<open>to\<close> in ascending order (each day of the range once, and no other), of the paths of
  that day's partitions in lexicographic order. The result is sorted and has no
  duplicates. When no day of the range has a partition the result is empty, and the
  middleware answers with status 404, "No data available for the requested period".
\<close>

theorem getFilePaths_resolves:
  assumes p: "Parse from = Some s" "Parse to = Some e"
    and le: "\<not> After s e"
    and names: "\<forall>n \<in> set (readdir ''ais_data''). CHR ''/'' \<notin> set n" "distinct (readdir ''ais_data'')"
  shows "getFilePaths readdir from to = concat (map (partitions_on readdir) (days_between s e)) \<and>
     sorted_wrt (\<lambda>a b. After b a) (days_between s e) \<and>
     set (days_between s e) = {d. is_date d \<and> \<not> After s d \<and> \<not> After d e} \<and>
     sorted (getFilePaths readdir from to) \<and> distinct (getFilePaths readdir from to) \<and>
     ((\<forall>d \<in> set (days_between s e). partitions_on readdir d = []) \<longrightarrow>
        getFilePaths readdir from to = [] \<and>
        fst (middlewareDateRange readdir today (Some from) (Some to)) =
          Abort 404 ''No data available for the requested period'')"
proof -
  note s = Parse_Some [OF p(1)] and e = Parse_Some [OF p(2)]
  let ?ds = "days_between s e"
  have eq: "getFilePaths readdir from to = concat (map (partitions_on readdir) ?ds)"
    unfolding getFilePaths_def getFilePaths_run_eq [OF p] Glob_partitions_on [of readdir, OF names(1)]
    by simp
  have asc: "sorted_wrt (\<lambda>a b. After b a) ?ds"
    using s by (simp add: days_between_ascending)
  have set: "set ?ds = {d. is_date d \<and> \<not> After s d \<and> \<not> After d e}"
    using s days_between_sound [of s _ e] days_between_complete [of s _ e] by blast
  have year: "Year d \<le> 9999" if "d \<in> set ?ds" for d
  proof -
    from that set have "is_date d" "\<not> After d e" by auto
    with e show ?thesis by (auto simp: After_dates)
  qed
  have blocks: "sorted_wrt (\<lambda>a b. \<forall>x \<in> set a. \<forall>y \<in> set b. x < y) (map (partitions_on readdir) ?ds)"
    unfolding sorted_wrt_map
  proof (rule sorted_wrt_mono_rel [OF _ asc])
    fix a b assume "a \<in> set ?ds" "b \<in> set ?ds" "After b a"
    then show "\<forall>x \<in> set (partitions_on readdir a). \<forall>y \<in> set (partitions_on readdir b). x < y"
      using set year partitions_on_less [of a b] by blast
  qed
  have "\<forall>xs \<in> set (map (partitions_on readdir) ?ds). sorted xs \<and> distinct xs"
    using names(2) by (auto simp: sorted_partitions_on distinct_partitions_on)
  then have sd: "sorted (getFilePaths readdir from to) \<and> distinct (getFilePaths readdir from to)"
    unfolding eq using blocks by (rule sorted_distinct_concat)
  have nodata: "getFilePaths readdir from to = [] \<and>
        fst (middlewareDateRange readdir today (Some from) (Some to)) =
          Abort 404 ''No data available for the requested period''"
    if "\<forall>d \<in> set ?ds. partitions_on readdir d = []"
  proof -
    from that have "getFilePaths readdir from to = []" by (simp add: eq)
    then show ?thesis
      using p by (simp add: middlewareDateRange_def DefaultQuery_def Let_def getFilePaths_def
          case_prod_unfold)
  qed
  from eq asc set sd nodata show ?thesis by blast
qed

theorem getFilePaths_resolves_witness:
  "Parse ''2023-09-01'' = Some day1 \<and> Parse ''2023-09-03'' = Some day3 \<and> \<not> After day1 day3 \<and>
   list_all (\<lambda>n. CHR ''/'' \<notin> set n) (readdir_sample ''ais_data'') \<and>
   distinct (readdir_sample ''ais_data'') \<and>
   days_between day1 day3 = [day1, day2, day3] \<and>
   getFilePaths readdir_sample ''2023-09-01'' ''2023-09-03'' =
     [''ais_data/2023-09-01_10-00-00.parquet'', ''ais_data/2023-09-01_12-00-00.parquet'',
      ''ais_data/2023-09-02_13-00-00.parquet''] \<and>
   sorted (getFilePaths readdir_sample ''2023-09-01'' ''2023-09-03'') \<and>
   distinct (getFilePaths readdir_sample ''2023-09-01'' ''2023-09-03'')"
proof -
  have n: "\<forall>n \<in> set (readdir_sample ''ais_data''). CHR ''/'' \<notin> set n"
    by (simp add: readdir_sample_def)
  have d: "distinct (readdir_sample ''ais_data'')"
    by (simp add: readdir_sample_def)
  have n': "list_all (\<lambda>n. CHR ''/'' \<notin> set n) (readdir_sample ''ais_data'')"
    using n by (simp add: list_all_iff)
  from getFilePaths_resolves [where readdir = readdir_sample and today = "''2023-09-05''",
      OF Parse_day1 Parse_day3 not_After_sample n d]
  have "getFilePaths readdir_sample ''2023-09-01'' ''2023-09-03'' =
      concat (map (partitions_on readdir_sample) (days_between day1 day3))"
    and "sorted (getFilePaths readdir_sample ''2023-09-01'' ''2023-09-03'')"
    and "distinct (getFilePaths readdir_sample ''2023-09-01'' ''2023-09-03'')"
    by blast+
  then show ?thesis
    using Parse_day1 Parse_day3 not_After_sample n' d
    by (simp add: days_sample partitions_sample)
qed

end
